theory Spec2Isabelle
  imports Main "HOL-Library.Sublist"
begin

section \<open>The host value model\<close>

text \<open>
  \<open>makeHardener\<close> (src/dist/make-hardener.esm.js) works on the object graph of its host
  through \<open>Object.freeze\<close>, \<open>Object.getOwnPropertyDescriptors\<close>, \<open>Object.getPrototypeOf\<close>,
  \<open>Object.defineProperty\<close> and \<open>Reflect.ownKeys\<close>. The graph is modelled as a heap of
  ordinary objects: an object is its prototype link, its own properties in \<open>ownKeys\<close>
  order (keys pairwise distinct in a well-formed heap), its extensibility flag, what
  \<open>typeof\<close> answers for it, the body it runs when it is called, and what a template
  literal makes of it. Proxies and other exotic objects are outside the model.
\<close>

type_synonym ref = nat

datatype key = KStr string | KSym nat string

datatype val = VUndefined | VNull | VBool bool | VNum int | VStr string | VRef ref

datatype desc =
    DataDesc (dvalue: val) (writable: bool) (enumerable: bool) (configurable: bool)
  | AccessorDesc (getter: val) (setter: val) (enumerable: bool) (configurable: bool)

datatype typeof_tag = TObject | TFunction | TOther string

text \<open>
  The two closures that \<open>freezeWithOverride\<close> creates are the only function bodies the
  development runs: \<open>OverrideGetter value\<close> is \<open>get () { return value }\<close> and
  \<open>OverrideSetter obj name\<close> is \<open>set (newValue) { ... }\<close> with its captured \<open>obj\<close> and
  \<open>name\<close>. Every other function is \<open>Opaque\<close>, every non-function \<open>NotCallable\<close>.
\<close>

datatype fn_code = NotCallable | Opaque | OverrideGetter val | OverrideSetter ref key

record obj =
  proto :: "ref option"
  props :: "(key \<times> desc) list"
  extensible :: bool
  typeof :: typeof_tag
  code :: fn_code
  to_string :: "string option"

text \<open>
  \<open>to_string o\<close> is the text that \<open>`${o}`\<close> evaluates to, \<open>None\<close> when the conversion
  throws (as for an object without \<open>toString\<close>). \<open>next_ref\<close> is the first address not yet
  allocated; \<open>function_prototype\<close> is the realm's \<open>%Function.prototype%\<close>, the prototype of
  every function a function expression creates.
\<close>

record jsheap =
  objs :: "ref \<Rightarrow> obj"
  next_ref :: ref
  function_prototype :: ref

text \<open>
  Every error of the source is a \<open>TypeError\<close>; the constructors tell the places apart
  where it is thrown: \<open>ConfigError\<close> in \<open>makeHardener\<close>, \<open>TypeKindError\<close> in \<open>enqueue\<close>,
  \<open>ReadOnlyViolation\<close> in the setter of a rewritten property, \<open>UnreachablePrototype\<close> in
  \<open>checkPrototypes\<close>. \<open>HostTypeError\<close> is a \<open>TypeError\<close> of the host itself
  (\<open>Object.defineProperty\<close>, an assignment, a template literal); \<open>Thrown\<close> is whatever
  the caller's hook throws. Each carries its message.
\<close>

datatype error =
    ConfigError string
  | TypeKindError string
  | ReadOnlyViolation string
  | UnreachablePrototype string
  | HostTypeError string
  | Thrown string

definition getPrototypeOf :: "jsheap \<Rightarrow> ref \<Rightarrow> ref option" where
  "getPrototypeOf h r = proto (objs h r)"

definition getOwnPropertyDescriptors :: "jsheap \<Rightarrow> ref \<Rightarrow> (key \<times> desc) list" where
  "getOwnPropertyDescriptors h r = props (objs h r)"

definition set_obj :: "jsheap \<Rightarrow> ref \<Rightarrow> obj \<Rightarrow> jsheap" where
  "set_obj h r ob = h\<lparr>objs := (objs h)(r := ob)\<rparr>"

definition alloc :: "jsheap \<Rightarrow> obj \<Rightarrow> ref \<times> jsheap" where
  "alloc h ob = (next_ref h, h\<lparr>objs := (objs h)(next_ref h := ob), next_ref := Suc (next_ref h)\<rparr>)"

text \<open>\<open>Object.freeze\<close> on an ordinary object: it cannot fail.\<close>

fun freeze_desc :: "desc \<Rightarrow> desc" where
  "freeze_desc (DataDesc v w e c) = DataDesc v False e False"
| "freeze_desc (AccessorDesc g s e c) = AccessorDesc g s e False"

definition freeze :: "jsheap \<Rightarrow> ref \<Rightarrow> jsheap" where
  "freeze h r =
     set_obj h r ((objs h r)\<lparr>props := map (\<lambda>(k, d). (k, freeze_desc d)) (props (objs h r)),
                             extensible := False\<rparr>)"

text \<open>
  \<open>Object.defineProperty(target, key, d)\<close> for a complete descriptor \<open>d\<close> (every call of
  the source passes one) on an ordinary object: ValidateAndApplyPropertyDescriptor.
\<close>

fun redefinition_allowed :: "desc \<Rightarrow> desc \<Rightarrow> bool" where
  "redefinition_allowed (DataDesc v w e c) (DataDesc v' w' e' c') =
     (c \<or> (\<not> c' \<and> e' = e \<and> (w \<or> (\<not> w' \<and> v' = v))))"
| "redefinition_allowed (AccessorDesc g s e c) (AccessorDesc g' s' e' c') =
     (c \<or> (\<not> c' \<and> e' = e \<and> g' = g \<and> s' = s))"
| "redefinition_allowed (DataDesc v w e c) (AccessorDesc g' s' e' c') = c"
| "redefinition_allowed (AccessorDesc g s e c) (DataDesc v' w' e' c') = c"

fun replace_prop :: "key \<Rightarrow> desc \<Rightarrow> (key \<times> desc) list \<Rightarrow> (key \<times> desc) list" where
  "replace_prop k d [] = []"
| "replace_prop k d ((k', d') # ps) =
     (if k' = k then (k, d) # ps else (k', d') # replace_prop k d ps)"

definition defineProperty :: "jsheap \<Rightarrow> val \<Rightarrow> key \<Rightarrow> desc \<Rightarrow> error + jsheap" where
  "defineProperty h target k d =
     (case target of
        VRef r \<Rightarrow>
          (case map_of (props (objs h r)) k of
             None \<Rightarrow>
               if extensible (objs h r)
               then Inr (set_obj h r ((objs h r)\<lparr>props := props (objs h r) @ [(k, d)]\<rparr>))
               else Inl (HostTypeError ''Cannot define property, object is not extensible'')
           | Some cur \<Rightarrow>
               if redefinition_allowed cur d
               then Inr (set_obj h r ((objs h r)\<lparr>props := replace_prop k d (props (objs h r))\<rparr>))
               else Inl (HostTypeError ''Cannot redefine property''))
      | _ \<Rightarrow> Inl (HostTypeError ''Object.defineProperty called on non-object''))"

text \<open>
  A method of an object literal, as \<open>get () {...}\<close> and \<open>set (newValue) {...}\<close> in
  \<open>newDesc\<close>: a fresh extensible function with own \<open>length\<close> and \<open>name\<close> (both
  non-writable, non-enumerable, configurable) and the realm's \<open>Function.prototype\<close> as
  prototype. \<open>src\<close> stands for the source text that a template literal makes of it.
\<close>

definition method_function :: "jsheap \<Rightarrow> string \<Rightarrow> int \<Rightarrow> fn_code \<Rightarrow> string \<Rightarrow> obj" where
  "method_function h nm len body src =
     \<lparr>proto = Some (function_prototype h),
      props = [(KStr ''length'', DataDesc (VNum len) False False True),
               (KStr ''name'', DataDesc (VStr nm) False False True)],
      extensible = True, typeof = TFunction, code = body, to_string = Some src\<rparr>"

section \<open>The hardener\<close>

text \<open>
  The state of one call of \<open>harden\<close>: the heap, the hardener's \<open>fringeSet\<close>, and the three
  structures the call creates: \<open>toFreeze\<close> (a \<open>Set\<close>, in insertion order), \<open>prototypes\<close>
  (a \<open>Map\<close>, in insertion order) and \<open>paths\<close> (a \<open>WeakMap\<close>; \<open>None\<close> is a missing or
  \<open>undefined\<close> entry). A throw is \<open>Inl\<close> with the state it leaves behind.
\<close>

record state =
  heap :: jsheap
  fringeSet :: "ref set"
  toFreeze :: "ref list"
  prototypes :: "(ref \<times> string) list"
  paths :: "ref \<Rightarrow> string option"

type_synonym res = "error \<times> state + state"

text \<open>
  \<open>naivePrepareObject\<close> is the caller's code: it may change the heap and it may throw.
\<close>

record config =
  naivePrepareObject :: "(ref \<Rightarrow> jsheap \<Rightarrow> error option \<times> jsheap) option"

definition set_add :: "ref list \<Rightarrow> ref \<Rightarrow> ref list" where
  "set_add xs x = (if x \<in> set xs then xs else xs @ [x])"

definition enqueue :: "val \<Rightarrow> string option \<Rightarrow> state \<Rightarrow> res" where
  "enqueue v path st =
     (case v of
        VRef r \<Rightarrow>
          (case typeof (objs (heap st) r) of
             TOther t \<Rightarrow> Inl (TypeKindError (''Unexpected typeof: '' @ t), st)
           | _ \<Rightarrow>
               if r \<in> fringeSet st \<or> r \<in> set (toFreeze st) then Inr st
               else Inr (st\<lparr>toFreeze := toFreeze st @ [r], paths := (paths st)(r := path)\<rparr>))
      | _ \<Rightarrow> Inr st)"

fun String :: "key \<Rightarrow> string" where
  "String (KStr s) = s"
| "String (KSym i d) = ''Symbol('' @ d @ '')''"

text \<open>
  \<open>xs.forEach(f)\<close> over an array read beforehand, for a callback that changes the state
  and may throw: the first throw ends the loop.
\<close>

fun for_each :: "('a \<Rightarrow> state \<Rightarrow> res) \<Rightarrow> 'a list \<Rightarrow> state \<Rightarrow> res" where
  "for_each f [] st = Inr st"
| "for_each f (x # xs) st =
     (case f x st of
        Inl e \<Rightarrow> Inl e
      | Inr st1 \<Rightarrow> for_each f xs st1)"

text \<open>
  The callback of \<open>freezeWithOverride\<close>'s \<open>forEach\<close>, for the key \<open>name\<close> and the descriptor
  \<open>d\<close> that was read for it before the loop. \<open>override_data\<close> is the branch
  \<open>'value' in desc\<close>. \<open>new_accessor_pair\<close> creates the two closures of \<open>newDesc\<close>, gives
  the getter its \<open>value\<close> property (an assignment to a fresh function: in a realm whose
  \<open>Function.prototype\<close> chain has no property \<open>value\<close> it creates the own data property)
  and freezes both; then both are added to \<open>toFreeze\<close> and the property is redefined.
\<close>

definition new_accessor_pair :: "jsheap \<Rightarrow> ref \<Rightarrow> key \<Rightarrow> val \<Rightarrow> ref \<times> ref \<times> jsheap" where
  "new_accessor_pair h ob name v =
     (let (g, h1) = alloc h
            (method_function h ''get'' 0 (OverrideGetter v) ''get () { return value }'');
          (s, h2) = alloc h1
            (method_function h ''set'' 1 (OverrideSetter ob name) ''set (newValue) { ... }'');
          h3 = set_obj h2 g ((objs h2 g)\<lparr>props := props (objs h2 g) @
                 [(KStr ''value'', DataDesc v True True True)]\<rparr>);
          h4 = freeze h3 g;
          h5 = freeze h4 s
      in (g, s, h5))"

definition override_data :: "ref \<Rightarrow> key \<Rightarrow> val \<Rightarrow> bool \<Rightarrow> state \<Rightarrow> res" where
  "override_data ob name v e st =
     (let (g, s, h5) = new_accessor_pair (heap st) ob name v;
          st1 = st\<lparr>heap := h5, toFreeze := set_add (set_add (toFreeze st) g) s\<rparr>
      in (case defineProperty h5 (VRef ob) name (AccessorDesc (VRef g) (VRef s) e False) of
            Inl err \<Rightarrow> Inl (err, st1)
          | Inr h6 \<Rightarrow> Inr (st1\<lparr>heap := h6\<rparr>)))"

definition override_accessor :: "ref \<Rightarrow> key \<Rightarrow> val \<Rightarrow> val \<Rightarrow> bool \<Rightarrow> state \<Rightarrow> res" where
  "override_accessor ob name g s e st =
     (case defineProperty (heap st) (VRef ob) name (AccessorDesc g s e False) of
        Inl err \<Rightarrow> Inl (err, st)
      | Inr h1 \<Rightarrow> Inr (st\<lparr>heap := h1\<rparr>))"

definition override_one :: "ref \<Rightarrow> key \<times> desc \<Rightarrow> state \<Rightarrow> res" where
  "override_one ob nd st =
     (case nd of (name, d) \<Rightarrow>
        if \<not> configurable d then Inr st
        else (case d of
                DataDesc v w e c \<Rightarrow> override_data ob name v e st
              | AccessorDesc g s e c \<Rightarrow> override_accessor ob name g s e st))"

definition freezeWithOverride :: "ref \<Rightarrow> state \<Rightarrow> res" where
  "freezeWithOverride ob st =
     (case for_each (override_one ob) (getOwnPropertyDescriptors (heap st) ob) st of
        Inl x \<Rightarrow> Inl x
      | Inr st1 \<Rightarrow> Inr (st1\<lparr>heap := freeze (heap st1) ob\<rparr>))"

text \<open>The callback of \<open>freezeAndTraverse\<close>'s \<open>forEach\<close>.\<close>

definition traverse_one :: "string \<Rightarrow> key \<times> desc \<Rightarrow> state \<Rightarrow> res" where
  "traverse_one path nd st =
     (case nd of (name, d) \<Rightarrow>
        (let pathname = path @ ''.'' @ String name in
         case d of
           DataDesc v w e c \<Rightarrow> enqueue v (Some pathname) st
         | AccessorDesc g s e c \<Rightarrow>
             (case enqueue g (Some (pathname @ ''(get)'')) st of
                Inl x \<Rightarrow> Inl x
              | Inr st1 \<Rightarrow> enqueue s (Some (pathname @ ''(set)'')) st1)))"

definition path_of :: "state \<Rightarrow> ref \<Rightarrow> string" where
  "path_of st ob = (case paths st ob of None \<Rightarrow> ''unknown'' | Some p \<Rightarrow> if p = [] then ''unknown'' else p)"

definition record_prototype :: "ref option \<Rightarrow> string \<Rightarrow> state \<Rightarrow> state" where
  "record_prototype pr path st =
     (case pr of
        None \<Rightarrow> st
      | Some p \<Rightarrow>
          if map_of (prototypes st) p = None
          then st\<lparr>prototypes := prototypes st @ [(p, path)],
                  paths := (paths st)(p \<mapsto> path @ ''.__proto__'')\<rparr>
          else st)"

definition run_hook :: "config \<Rightarrow> ref \<Rightarrow> state \<Rightarrow> res" where
  "run_hook c ob st =
     (case naivePrepareObject c of
        None \<Rightarrow> Inr st
      | Some f \<Rightarrow>
          (case f ob (heap st) of
             (Some err, h1) \<Rightarrow> Inl (err, st\<lparr>heap := h1\<rparr>)
           | (None, h1) \<Rightarrow> Inr (st\<lparr>heap := h1\<rparr>)))"

definition freezeAndTraverse :: "config \<Rightarrow> ref \<Rightarrow> state \<Rightarrow> res" where
  "freezeAndTraverse c ob st =
     (case run_hook c ob st of
        Inl x \<Rightarrow> Inl x
      | Inr st1 \<Rightarrow>
          (case freezeWithOverride ob st1 of
             Inl x \<Rightarrow> Inl x
           | Inr st2 \<Rightarrow>
               (let pr = getPrototypeOf (heap st2) ob;
                    descs = getOwnPropertyDescriptors (heap st2) ob;
                    path = path_of st2 ob
                in for_each (traverse_one path) descs (record_prototype pr path st2))))"

text \<open>
  \<open>toFreeze.forEach(freezeAndTraverse)\<close>: a \<open>Set\<close>'s \<open>forEach\<close> visits the entries in
  insertion order and also those added while it runs; \<open>i\<close> is the position it has reached.
  \<open>None\<close> is a walk that never ends.
\<close>

partial_function (option) dequeue_from :: "config \<Rightarrow> nat \<Rightarrow> state \<Rightarrow> res option" where
  "dequeue_from c i st =
     (if i < length (toFreeze st)
      then (case freezeAndTraverse c (toFreeze st ! i) st of
              Inl x \<Rightarrow> Some (Inl x)
            | Inr st1 \<Rightarrow> dequeue_from c (Suc i) st1)
      else Some (Inr st))"

declare dequeue_from.simps [code]

definition dequeue :: "config \<Rightarrow> state \<Rightarrow> res option" where
  "dequeue c st = dequeue_from c 0 st"

definition unreachable_message :: "jsheap \<Rightarrow> ref \<Rightarrow> string \<Rightarrow> string" where
  "unreachable_message h p path =
     (case to_string (objs h p) of
        Some s \<Rightarrow> ''prototype '' @ s @ '' of '' @ path @ '' is not already in the fringeSet''
      | None \<Rightarrow> ''a prototype of something is not already in the fringeset (and .toString failed)'')"

fun check_each :: "(ref \<times> string) list \<Rightarrow> state \<Rightarrow> res" where
  "check_each [] st = Inr st"
| "check_each ((p, path) # rest) st =
     (if \<not> (p \<in> set (toFreeze st) \<or> p \<in> fringeSet st)
      then Inl (UnreachablePrototype (unreachable_message (heap st) p path), st)
      else check_each rest st)"

definition checkPrototypes :: "state \<Rightarrow> res" where
  "checkPrototypes st = check_each (prototypes st) st"

definition commit :: "state \<Rightarrow> state" where
  "commit st = st\<lparr>fringeSet := fringeSet st \<union> set (toFreeze st)\<rparr>"

definition new_call :: "jsheap \<Rightarrow> ref set \<Rightarrow> state" where
  "new_call h fr = \<lparr>heap = h, fringeSet = fr, toFreeze = [], prototypes = [], paths = (\<lambda>_. None)\<rparr>"

text \<open>
  \<open>walk\<close> is \<open>enqueue(root); dequeue(); checkPrototypes()\<close>; \<open>harden\<close> adds \<open>commit()\<close> and
  \<open>return root\<close>. The outcome of a call is the value it returns or the error it throws,
  with the heap and the \<open>fringeSet\<close> it leaves.
\<close>

definition walk :: "config \<Rightarrow> val \<Rightarrow> jsheap \<Rightarrow> ref set \<Rightarrow> res option" where
  "walk c root h fr =
     (case enqueue root None (new_call h fr) of
        Inl x \<Rightarrow> Some (Inl x)
      | Inr st0 \<Rightarrow>
          (case dequeue c st0 of
             None \<Rightarrow> None
           | Some (Inl x) \<Rightarrow> Some (Inl x)
           | Some (Inr st1) \<Rightarrow> Some (checkPrototypes st1)))"

definition harden :: "config \<Rightarrow> val \<Rightarrow> jsheap \<Rightarrow> ref set \<Rightarrow> ((error + val) \<times> jsheap \<times> ref set) option" where
  "harden c root h fr =
     (case walk c root h fr of
        None \<Rightarrow> None
      | Some (Inl (err, st)) \<Rightarrow> Some (Inl err, heap st, fringeSet st)
      | Some (Inr st) \<Rightarrow> Some (Inr root, heap (commit st), fringeSet (commit st)))"

section \<open>Construction\<close>

text \<open>
  \<open>makeHardener(initialFringe, options)\<close>. \<open>initialFringe\<close> is an iterable of objects, or
  \<open>None\<close> when it is missing (falsy). \<open>options.fringeSet\<close> is \<open>None\<close> when it is missing
  (falsy); otherwise it is the caller's object: whether \<open>typeof fringeSet.add\<close> and
  \<open>typeof fringeSet.has\<close> are \<open>'function'\<close>, and the objects it holds. A set that has both
  methods is taken to be a \<open>Set\<close> or \<open>WeakSet\<close>: \<open>add\<close> inserts and \<open>has\<close> tests membership.
  The hardener that comes back records whose set its \<open>fringeSet\<close> is.
\<close>

record fringe_arg =
  has_add :: bool
  has_has :: bool
  members :: "ref set"

record options =
  opt_fringeSet :: "fringe_arg option"
  opt_naivePrepareObject :: "(ref \<Rightarrow> jsheap \<Rightarrow> error option \<times> jsheap) option"

datatype fringe_owner = CallerSet | PrivateWeakSet

record hardener =
  hardener_config :: config
  hardener_owner :: fringe_owner
  hardener_fringe :: "ref set"

definition makeHardener :: "ref list option \<Rightarrow> options \<Rightarrow> error + hardener" where
  "makeHardener initialFringe opts =
     (case opt_fringeSet opts of
        Some fs \<Rightarrow>
          if \<not> has_add fs \<or> \<not> has_has fs
          then Inl (ConfigError ''options.fringeSet must have add() and has() methods'')
          else Inr \<lparr>hardener_config = \<lparr>naivePrepareObject = opt_naivePrepareObject opts\<rparr>,
                    hardener_owner = CallerSet,
                    hardener_fringe =
                      (case initialFringe of
                         None \<Rightarrow> members fs
                       | Some xs \<Rightarrow> fold (\<lambda>x acc. insert x acc) xs (members fs))\<rparr>
      | None \<Rightarrow>
          Inr \<lparr>hardener_config = \<lparr>naivePrepareObject = opt_naivePrepareObject opts\<rparr>,
               hardener_owner = PrivateWeakSet,
               hardener_fringe = (case initialFringe of None \<Rightarrow> {} | Some xs \<Rightarrow> set xs)\<rparr>)"

section \<open>Reads and writes of the host\<close>

text \<open>
  What the accessor pair of a hardened property does is seen through the host's property
  read \<open>o.k\<close> and its assignment \<open>o.k = v\<close> in strict code (OrdinaryGet and OrdinarySet
  of ordinary objects, a refused write being a TypeError). Both walk the prototype chain;
  \<open>None\<close> is a walk that never ends or that calls a function whose body is \<open>Opaque\<close>.
\<close>

definition read_only_error :: "jsheap \<Rightarrow> key \<Rightarrow> ref \<Rightarrow> error" where
  "read_only_error h name ob =
     (case name of
        KSym i d \<Rightarrow> HostTypeError ''Cannot convert a Symbol value to a string''
      | KStr s \<Rightarrow>
          (case to_string (objs h ob) of
             None \<Rightarrow> HostTypeError ''Cannot convert object to primitive value''
           | Some t \<Rightarrow>
               ReadOnlyViolation (''Cannot assign to read only property '' @ [CHR 0x27] @ s @
                 [CHR 0x27] @ '' of object '' @ [CHR 0x27] @ t @ [CHR 0x27])))"

text \<open>The \<open>set (newValue)\<close> closure of \<open>freezeWithOverride\<close>, called with \<open>this = receiver\<close>.\<close>

definition override_set :: "ref \<Rightarrow> key \<Rightarrow> jsheap \<Rightarrow> val \<Rightarrow> val \<Rightarrow> error + jsheap" where
  "override_set ob name h receiver newValue =
     (if receiver = VRef ob then Inl (read_only_error h name ob)
      else defineProperty h receiver name (DataDesc newValue True True True))"

definition call_setter :: "jsheap \<Rightarrow> val \<Rightarrow> val \<Rightarrow> val \<Rightarrow> (error + jsheap) option" where
  "call_setter h f receiver v =
     (case f of
        VRef r \<Rightarrow>
          (case code (objs h r) of
             OverrideSetter ob name \<Rightarrow> Some (override_set ob name h receiver v)
           | OverrideGetter x \<Rightarrow> Some (Inr h)
           | _ \<Rightarrow> None)
      | VUndefined \<Rightarrow> Some (Inl (HostTypeError ''Cannot set property which has only a getter''))
      | _ \<Rightarrow> None)"

definition call_getter :: "jsheap \<Rightarrow> val \<Rightarrow> val \<Rightarrow> val option" where
  "call_getter h f receiver =
     (case f of
        VRef r \<Rightarrow>
          (case code (objs h r) of
             OverrideGetter x \<Rightarrow> Some x
           | _ \<Rightarrow> None)
      | VUndefined \<Rightarrow> Some VUndefined
      | _ \<Rightarrow> None)"

definition set_on_receiver :: "jsheap \<Rightarrow> key \<Rightarrow> val \<Rightarrow> val \<Rightarrow> error + jsheap" where
  "set_on_receiver h k v receiver =
     (case receiver of
        VRef r \<Rightarrow>
          (case map_of (props (objs h r)) k of
             Some (AccessorDesc g s e c) \<Rightarrow> Inl (HostTypeError ''Cannot assign to property'')
           | Some (DataDesc x w e c) \<Rightarrow>
               if w then Inr (set_obj h r ((objs h r)\<lparr>props := replace_prop k (DataDesc v w e c) (props (objs h r))\<rparr>))
               else Inl (HostTypeError ''Cannot assign to read only property'')
           | None \<Rightarrow>
               if extensible (objs h r)
               then Inr (set_obj h r ((objs h r)\<lparr>props := props (objs h r) @ [(k, DataDesc v True True True)]\<rparr>))
               else Inl (HostTypeError ''Cannot add property, object is not extensible''))
      | _ \<Rightarrow> Inl (HostTypeError ''Cannot create property on a primitive''))"

partial_function (option) ordinary_set :: "jsheap \<Rightarrow> ref \<Rightarrow> key \<Rightarrow> val \<Rightarrow> val \<Rightarrow> (error + jsheap) option" where
  "ordinary_set h ob k v receiver =
     (case map_of (props (objs h ob)) k of
        None \<Rightarrow>
          (case proto (objs h ob) of
             Some parent \<Rightarrow> ordinary_set h parent k v receiver
           | None \<Rightarrow> Some (set_on_receiver h k v receiver))
      | Some (DataDesc x w e c) \<Rightarrow>
          if w then Some (set_on_receiver h k v receiver)
          else Some (Inl (HostTypeError ''Cannot assign to read only property''))
      | Some (AccessorDesc g s e c) \<Rightarrow> call_setter h s receiver v)"

declare ordinary_set.simps [code]

partial_function (option) ordinary_get :: "jsheap \<Rightarrow> ref \<Rightarrow> key \<Rightarrow> val \<Rightarrow> val option" where
  "ordinary_get h ob k receiver =
     (case map_of (props (objs h ob)) k of
        None \<Rightarrow>
          (case proto (objs h ob) of
             Some parent \<Rightarrow> ordinary_get h parent k receiver
           | None \<Rightarrow> Some VUndefined)
      | Some (DataDesc x w e c) \<Rightarrow> Some x
      | Some (AccessorDesc g s e c) \<Rightarrow> call_getter h g receiver)"

declare ordinary_get.simps [code]

definition assign :: "jsheap \<Rightarrow> ref \<Rightarrow> key \<Rightarrow> val \<Rightarrow> (error + jsheap) option" where
  "assign h ob k v = ordinary_set h ob k v (VRef ob)"

definition read :: "jsheap \<Rightarrow> ref \<Rightarrow> key \<Rightarrow> val option" where
  "read h ob k = ordinary_get h ob k (VRef ob)"

section \<open>Notions for the properties\<close>

text \<open>
  The state of a result, whether it is a return or a throw, and the three parts of what a
  call of \<open>harden\<close> leaves: its outcome, the heap and the \<open>fringeSet\<close>.
\<close>

definition res_state :: "res \<Rightarrow> state" where
  "res_state r = (case r of Inl (e, s) \<Rightarrow> s | Inr s \<Rightarrow> s)"

definition outcome :: "((error + val) \<times> jsheap \<times> ref set) option \<Rightarrow> (error + val) option" where
  "outcome r = map_option fst r"

definition heap_after :: "((error + val) \<times> jsheap \<times> ref set) option \<Rightarrow> jsheap" where
  "heap_after r = fst (snd (the r))"

definition fringe_after :: "((error + val) \<times> jsheap \<times> ref set) option \<Rightarrow> ref set" where
  "fringe_after r = snd (snd (the r))"

subsection \<open>Well-formed heaps and frozen objects\<close>

text \<open>
  In a well-formed heap every reference held by an allocated object is allocated, and the
  own keys of an object are pairwise distinct. A frozen object is not extensible and has
  no configurable and no writable property. \<open>val_refs\<close>, \<open>desc_refs\<close> and \<open>links\<close> are the
  objects a value, a descriptor and a node refer to: a node's links are its prototype and
  the objects among its own property values and accessor functions.
\<close>

fun val_ok :: "nat \<Rightarrow> val \<Rightarrow> bool" where
  "val_ok n (VRef r) = (r < n)"
| "val_ok n v = True"

fun desc_ok :: "nat \<Rightarrow> desc \<Rightarrow> bool" where
  "desc_ok n (DataDesc v w e c) = val_ok n v"
| "desc_ok n (AccessorDesc g s e c) = (val_ok n g \<and> val_ok n s)"

definition obj_ok :: "nat \<Rightarrow> obj \<Rightarrow> bool" where
  "obj_ok n ob =
     ((case proto ob of None \<Rightarrow> True | Some p \<Rightarrow> p < n) \<and>
      distinct (map fst (props ob)) \<and>
      list_all (\<lambda>kd. desc_ok n (snd kd)) (props ob))"

definition wf_heap :: "jsheap \<Rightarrow> bool" where
  "wf_heap h =
     (function_prototype h < next_ref h \<and>
      list_all (\<lambda>r. obj_ok (next_ref h) (objs h r)) [0..<next_ref h])"

fun frozen_desc :: "desc \<Rightarrow> bool" where
  "frozen_desc (DataDesc v w e c) = (\<not> w \<and> \<not> c)"
| "frozen_desc (AccessorDesc g s e c) = (\<not> c)"

definition frozen_obj :: "obj \<Rightarrow> bool" where
  "frozen_obj ob = (\<not> extensible ob \<and> list_all (\<lambda>kd. frozen_desc (snd kd)) (props ob))"

fun val_refs :: "val \<Rightarrow> ref set" where
  "val_refs (VRef r) = {r}"
| "val_refs v = {}"

fun desc_refs :: "desc \<Rightarrow> ref set" where
  "desc_refs (DataDesc v w e c) = val_refs v"
| "desc_refs (AccessorDesc g s e c) = val_refs g \<union> val_refs s"

definition links :: "jsheap \<Rightarrow> ref \<Rightarrow> ref set" where
  "links h n =
     (case proto (objs h n) of None \<Rightarrow> {} | Some p \<Rightarrow> {p}) \<union>
     (\<Union>nd\<in>set (props (objs h n)). desc_refs (snd nd))"

subsection \<open>What the code of the host can do\<close>

text \<open>
  \<open>heap_step h h'\<close>: \<open>h'\<close> comes from \<open>h\<close> by steps any code of the host can take. It
  allocates; it never changes what \<open>typeof\<close> answers for an object, or the body of a
  function; it leaves the prototype, the properties and the extensibility of a frozen
  object alone. A hook is \<open>hook_ok\<close> when that is all it does and it keeps the heap
  well-formed; it is \<open>hook_passive\<close> when it leaves the heap as it is (it may still throw).
\<close>

definition heap_step :: "jsheap \<Rightarrow> jsheap \<Rightarrow> bool" where
  "heap_step h h' =
     (next_ref h \<le> next_ref h' \<and> function_prototype h' = function_prototype h \<and>
      (\<forall>r<next_ref h.
         typeof (objs h' r) = typeof (objs h r) \<and> code (objs h' r) = code (objs h r) \<and>
         (frozen_obj (objs h r) \<longrightarrow>
            proto (objs h' r) = proto (objs h r) \<and> props (objs h' r) = props (objs h r) \<and>
            extensible (objs h' r) = extensible (objs h r))))"

definition hook_ok :: "config \<Rightarrow> bool" where
  "hook_ok c =
     (case naivePrepareObject c of
        None \<Rightarrow> True
      | Some f \<Rightarrow> \<forall>ob h. heap_step h (snd (f ob h)) \<and> (wf_heap h \<longrightarrow> wf_heap (snd (f ob h))))"

definition hook_passive :: "config \<Rightarrow> bool" where
  "hook_passive c =
     (case naivePrepareObject c of None \<Rightarrow> True | Some f \<Rightarrow> \<forall>ob h. snd (f ob h) = h)"

subsection \<open>The state of a call\<close>

text \<open>
  Within a call the \<open>fringeSet\<close> stays and \<open>toFreeze\<close> and \<open>prototypes\<close> only get new
  entries at the end (\<open>grows\<close>; \<open>evolves\<close> when the heap makes a \<open>heap_step\<close> too). \<open>inv\<close>
  is the invariant of a call: the heap is well-formed, \<open>toFreeze\<close> holds allocated objects
  and none twice. \<open>covered\<close> is the test of \<open>enqueue\<close> and of \<open>checkPrototypes\<close>;
  \<open>offending\<close> is its negation on an entry of \<open>prototypes\<close>. A node is \<open>node_done\<close> when
  it is frozen, every object among its own values and accessor functions is covered, and
  its prototype is recorded in \<open>prototypes\<close>.
\<close>

definition grows :: "state \<Rightarrow> state \<Rightarrow> bool" where
  "grows st st' =
     (fringeSet st' = fringeSet st \<and>
      prefix (toFreeze st) (toFreeze st') \<and> prefix (prototypes st) (prototypes st'))"

definition evolves :: "state \<Rightarrow> state \<Rightarrow> bool" where
  "evolves st st' = (heap_step (heap st) (heap st') \<and> grows st st')"

definition inv :: "state \<Rightarrow> bool" where
  "inv st =
     (wf_heap (heap st) \<and> list_all (\<lambda>r. r < next_ref (heap st)) (toFreeze st) \<and>
      distinct (toFreeze st))"

definition covered :: "state \<Rightarrow> ref \<Rightarrow> bool" where
  "covered st r = (r \<in> fringeSet st \<or> r \<in> set (toFreeze st))"

definition offending :: "state \<Rightarrow> ref \<times> string \<Rightarrow> bool" where
  "offending st pp = (fst pp \<notin> set (toFreeze st) \<and> fst pp \<notin> fringeSet st)"

definition node_done :: "state \<Rightarrow> ref \<Rightarrow> bool" where
  "node_done st n =
     (frozen_obj (objs (heap st) n) \<and>
      (\<forall>nd\<in>set (props (objs (heap st) n)). \<forall>r\<in>desc_refs (snd nd). covered st r) \<and>
      (\<forall>p. proto (objs (heap st) n) = Some p \<longrightarrow> p \<in> fst ` set (prototypes st)))"

subsection \<open>The accessor pair of a rewritten property\<close>

text \<open>
  \<open>getter_obj\<close> and \<open>setter_obj\<close> are the two closures as \<open>new_accessor_pair\<close> leaves
  them, and \<open>install_pair\<close> is the heap it leaves. \<open>override_pair h ob k v\<close>: in \<open>h\<close> the
  own property \<open>k\<close> of \<open>ob\<close> is a non-configurable accessor whose getter and setter are
  the closures that \<open>freezeWithOverride\<close> made for \<open>ob\<close>, \<open>k\<close> and the captured \<open>v\<close>.
  \<open>inherits h k c r\<close>: the lookup of \<open>k\<close> on \<open>c\<close> finds no own property on \<open>c\<close> or on
  the objects of its prototype chain before \<open>r\<close>, and reaches \<open>r\<close>.
\<close>

definition getter_obj :: "ref \<Rightarrow> val \<Rightarrow> obj" where
  "getter_obj fp v =
     \<lparr>proto = Some fp,
      props = [(KStr ''length'', DataDesc (VNum 0) False False False),
               (KStr ''name'', DataDesc (VStr ''get'') False False False),
               (KStr ''value'', DataDesc v False True False)],
      extensible = False, typeof = TFunction, code = OverrideGetter v,
      to_string = Some ''get () { return value }''\<rparr>"

definition setter_obj :: "ref \<Rightarrow> ref \<Rightarrow> key \<Rightarrow> obj" where
  "setter_obj fp ob name =
     \<lparr>proto = Some fp,
      props = [(KStr ''length'', DataDesc (VNum 1) False False False),
               (KStr ''name'', DataDesc (VStr ''set'') False False False)],
      extensible = False, typeof = TFunction, code = OverrideSetter ob name,
      to_string = Some ''set (newValue) { ... }''\<rparr>"

definition install_pair :: "jsheap \<Rightarrow> ref \<Rightarrow> key \<Rightarrow> val \<Rightarrow> jsheap" where
  "install_pair h ob name v =
     h\<lparr>objs := (objs h)(next_ref h := getter_obj (function_prototype h) v,
                          Suc (next_ref h) := setter_obj (function_prototype h) ob name),
       next_ref := Suc (Suc (next_ref h))\<rparr>"

definition override_pair :: "jsheap \<Rightarrow> ref \<Rightarrow> key \<Rightarrow> val \<Rightarrow> bool" where
  "override_pair h ob k v =
     (case map_of (props (objs h ob)) k of
        Some (AccessorDesc (VRef g) (VRef s) e c) \<Rightarrow>
          \<not> c \<and> g < next_ref h \<and> s < next_ref h \<and>
          code (objs h g) = OverrideGetter v \<and> code (objs h s) = OverrideSetter ob k
      | _ \<Rightarrow> False)"

inductive inherits :: "jsheap \<Rightarrow> key \<Rightarrow> ref \<Rightarrow> ref \<Rightarrow> bool" for h k where
  parent: "map_of (props (objs h c)) k = None \<Longrightarrow> proto (objs h c) = Some r \<Longrightarrow> inherits h k c r"
| ancestor: "map_of (props (objs h c)) k = None \<Longrightarrow> proto (objs h c) = Some m \<Longrightarrow>
     inherits h k m r \<Longrightarrow> inherits h k c r"

subsection \<open>Where the entries of a call come from\<close>

text \<open>
  \<open>prop_refs h n\<close> are the objects among the own property values and accessor functions
  of \<open>n\<close>: its links without the prototype, the values that \<open>freezeAndTraverse\<close> hands to
  \<open>enqueue\<close>. \<open>held h ob k x\<close>: \<open>x\<close> is among the objects of the own property \<open>k\<close> of
  \<open>ob\<close>. \<open>traced root i st\<close>, when \<open>forEach\<close> has reached position \<open>i\<close>: no entry of
  \<open>toFreeze\<close> is in the \<open>fringeSet\<close>; every entry is the root or is among the properties
  of an entry processed before it; every recorded prototype is the prototype of a
  processed entry; the \<open>fringeSet\<close> holds allocated objects only. \<open>typed h n\<close>: \<open>typeof\<close>
  answers \<open>'object'\<close> or \<open>'function'\<close> for every object among the properties of \<open>n\<close>.
  \<open>settled h fr D\<close>: every node of \<open>D\<close> is frozen, its properties are typed and lead
  into \<open>D\<close> or into \<open>fr\<close>; a walk over such nodes has nothing left to do.
\<close>

definition prop_refs :: "jsheap \<Rightarrow> ref \<Rightarrow> ref set" where
  "prop_refs h n = (\<Union>nd\<in>set (props (objs h n)). desc_refs (snd nd))"

definition held :: "jsheap \<Rightarrow> ref \<Rightarrow> key \<Rightarrow> ref \<Rightarrow> bool" where
  "held h ob k x = (case map_of (props (objs h ob)) k of None \<Rightarrow> False | Some d \<Rightarrow> x \<in> desc_refs d)"

definition traced :: "val \<Rightarrow> nat \<Rightarrow> state \<Rightarrow> bool" where
  "traced root i st =
     ((\<forall>j<length (toFreeze st). toFreeze st ! j \<notin> fringeSet st \<and>
         (root = VRef (toFreeze st ! j) \<or>
          (\<exists>k<j. k < i \<and> toFreeze st ! j \<in> prop_refs (heap st) (toFreeze st ! k)))) \<and>
      (\<forall>pp\<in>set (prototypes st). \<exists>k<length (toFreeze st). k < i \<and>
         proto (objs (heap st) (toFreeze st ! k)) = Some (fst pp)) \<and>
      (\<forall>r\<in>fringeSet st. r < next_ref (heap st)))"

definition typed :: "jsheap \<Rightarrow> ref \<Rightarrow> bool" where
  "typed h n = (\<forall>r\<in>prop_refs h n. \<forall>t. typeof (objs h r) \<noteq> TOther t)"

definition settled :: "jsheap \<Rightarrow> ref set \<Rightarrow> ref set \<Rightarrow> bool" where
  "settled h fr D =
     (\<forall>n\<in>D. frozen_obj (objs h n) \<and> prop_refs h n \<subseteq> D \<union> fr \<and> typed h n)"

subsection \<open>Reachability\<close>

text \<open>
  \<open>reach h stop root\<close>: the nodes that paths of links from \<open>root\<close> reach in \<open>h\<close> without
  leaving a node of \<open>stop\<close>; with \<open>stop = {}\<close>, everything reachable from \<open>root\<close>.
\<close>

inductive_set reach :: "jsheap \<Rightarrow> ref set \<Rightarrow> ref \<Rightarrow> ref set" for h stop root where
  start: "root \<in> reach h stop root"
| step: "n \<in> reach h stop root \<Longrightarrow> n \<notin> stop \<Longrightarrow> m \<in> links h n \<Longrightarrow> m \<in> reach h stop root"

subsection \<open>The measure of the walk\<close>

text \<open>
  \<open>pending\<close> counts the configurable data properties of the allocated objects, those
  that \<open>freezeWithOverride\<close> would still rewrite; each rewrite allocates two functions.
  \<open>potential\<close> bounds the length that \<open>toFreeze\<close> can reach.
\<close>

definition cfg_data :: "key \<times> desc \<Rightarrow> bool" where
  "cfg_data nd = (case snd nd of DataDesc v w e c \<Rightarrow> c | AccessorDesc g s e c \<Rightarrow> False)"

definition pending :: "jsheap \<Rightarrow> nat" where
  "pending h = (\<Sum>r<next_ref h. length (filter cfg_data (props (objs h r))))"

definition potential :: "jsheap \<Rightarrow> nat" where
  "potential h = next_ref h + 2 * pending h"

subsection \<open>A small realm\<close>

text \<open>
  Objects 0 and 1 stand for \<open>Object.prototype\<close> and \<open>Function.prototype\<close>. Object 2 is
  \<open>{ x: o3 }\<close>, object 3 is \<open>Object.create(o4)\<close> and object 4 is \<open>{}\<close>: the prototype of
  object 3 is reachable from object 2 through no property. Objects 5 and 6 have no
  prototype: \<open>Object.create(null)\<close> with \<open>x = 1\<close>, and \<open>Object.create(null)\<close>. Objects 7
  and 8 inherit from object 2: \<open>Object.preventExtensions(Object.create(o2))\<close> and
  \<open>Object.create(o2)\<close>. In \<open>loop_heap\<close>, object 2 is \<open>n\<close> with \<open>n.self = n\<close>.
\<close>

definition plain_object :: "ref option \<Rightarrow> (key \<times> desc) list \<Rightarrow> obj" where
  "plain_object p ps =
     \<lparr>proto = p, props = ps, extensible = True, typeof = TObject, code = NotCallable,
      to_string = Some ''[object Object]''\<rparr>"

definition bare_object :: "(key \<times> desc) list \<Rightarrow> obj" where
  "bare_object ps =
     \<lparr>proto = None, props = ps, extensible = True, typeof = TObject, code = NotCallable,
      to_string = None\<rparr>"

definition native_function :: "ref option \<Rightarrow> (key \<times> desc) list \<Rightarrow> obj" where
  "native_function p ps =
     \<lparr>proto = p, props = ps, extensible = True, typeof = TFunction, code = Opaque,
      to_string = Some ''function () { [native code] }''\<rparr>"

definition demo_heap :: jsheap where
  "demo_heap =
     \<lparr>objs = (\<lambda>r. bare_object [])
        (0 := plain_object None [],
         1 := native_function (Some 0) [],
         2 := plain_object (Some 0) [(KStr ''x'', DataDesc (VRef 3) True True True)],
         3 := plain_object (Some 4) [],
         4 := plain_object (Some 0) [],
         5 := bare_object [(KStr ''x'', DataDesc (VNum 1) True True True)],
         6 := bare_object [],
         7 := (plain_object (Some 2) [])\<lparr>extensible := False\<rparr>,
         8 := plain_object (Some 2) []),
      next_ref = 9, function_prototype = 1\<rparr>"

definition loop_heap :: jsheap where
  "loop_heap =
     \<lparr>objs = (\<lambda>r. bare_object [])
        (0 := plain_object None [],
         1 := native_function (Some 0) [],
         2 := plain_object (Some 0) [(KStr ''self'', DataDesc (VRef 2) True True True)]),
      next_ref = 3, function_prototype = 1\<rparr>"

definition no_hook :: config where
  "no_hook = \<lparr>naivePrepareObject = None\<rparr>"

text \<open>
  A hook that marks the node it is given: \<open>Object.defineProperty(node, 'seen', ...)\<close>.
\<close>

definition tagging_hook :: "ref \<Rightarrow> jsheap \<Rightarrow> error option \<times> jsheap" where
  "tagging_hook ob h =
     (case defineProperty h (VRef ob) (KStr ''seen'') (DataDesc (VBool True) True True True) of
        Inl err \<Rightarrow> (Some err, h)
      | Inr h1 \<Rightarrow> (None, h1))"

definition tagging :: config where
  "tagging = \<lparr>naivePrepareObject = Some tagging_hook\<rparr>"

text \<open>
  A hook that marks an extensible node the first time it is given it, and then throws;
  on a node that is marked already, or not extensible, it returns.
\<close>

definition first_visit_hook :: "ref \<Rightarrow> jsheap \<Rightarrow> error option \<times> jsheap" where
  "first_visit_hook ob h =
     (if extensible (objs h ob) \<and> map_of (props (objs h ob)) (KStr ''seen'') = None
      then (case defineProperty h (VRef ob) (KStr ''seen'') (DataDesc (VBool True) True True True) of
              Inl err \<Rightarrow> (Some err, h)
            | Inr h1 \<Rightarrow> (Some (Thrown ''first visit''), h1))
      else (None, h))"

definition first_visit :: config where
  "first_visit = \<lparr>naivePrepareObject = Some first_visit_hook\<rparr>"

text \<open>
  States of calls in the small realm: after \<open>enqueue(o2)\<close> with objects 0 and 1 in the
  \<open>fringeSet\<close>, and after \<open>dequeue()\<close> from there; after the rewrite of \<open>x\<close> alone and
  after \<open>freezeWithOverride(o2)\<close>; after \<open>freezeAndTraverse(o6)\<close> with the marking hook;
  after \<open>enqueue(o6)\<close> with an empty \<open>fringeSet\<close>, and after \<open>dequeue()\<close> from there.
\<close>

definition demo_queued :: state where
  "demo_queued = projr (enqueue (VRef 2) None (new_call demo_heap {0, 1}))"

definition demo_walked :: state where
  "demo_walked = projr (the (dequeue no_hook demo_queued))"

definition demo_rewritten :: state where
  "demo_rewritten = projr (override_one 2 (KStr ''x'', DataDesc (VRef 3) True True True) demo_queued)"

definition demo_frozen :: state where
  "demo_frozen = projr (freezeWithOverride 2 demo_queued)"

definition demo_tagged :: state where
  "demo_tagged = projr (freezeAndTraverse tagging 6
     (projr (enqueue (VRef 6) None (new_call demo_heap {}))))"

definition demo_bare_queued :: state where
  "demo_bare_queued = projr (enqueue (VRef 6) None (new_call demo_heap {}))"

definition demo_bare_walked :: state where
  "demo_bare_walked = projr (the (dequeue no_hook demo_bare_queued))"

section \<open>Lemmas\<close>

lemma res_state_simps [simp]: "res_state (Inl (e, s)) = s" "res_state (Inr s) = s"
  by (simp_all add: res_state_def)

lemma heap_step_refl [simp]: "heap_step h h"
  by (simp add: heap_step_def)

lemma frozen_obj_cong:
  "props a = props b \<Longrightarrow> extensible a = extensible b \<Longrightarrow> frozen_obj a = frozen_obj b"
  by (simp add: frozen_obj_def)

lemma heap_step_trans: 
  assumes "heap_step h1 h2" "heap_step h2 h3" shows "heap_step h1 h3"
proof -
  have n: "next_ref h1 \<le> next_ref h3" using assms by (simp add: heap_step_def)
  have f: "function_prototype h3 = function_prototype h1" using assms by (simp add: heap_step_def)
  have t: "typeof (objs h3 r) = typeof (objs h1 r) \<and> code (objs h3 r) = code (objs h1 r)"
    if r: "r < next_ref h1" for r
  proof -
    have r2: "r < next_ref h2" using assms(1) r by (simp add: heap_step_def)
    show ?thesis using assms r r2 by (simp add: heap_step_def)
  qed
  have p: "proto (objs h3 r) = proto (objs h1 r) \<and>
         props (objs h3 r) = props (objs h1 r) \<and> extensible (objs h3 r) = extensible (objs h1 r)"
    if r: "r < next_ref h1" and fr: "frozen_obj (objs h1 r)" for r
  proof -
    have r2: "r < next_ref h2" using assms(1) r by (simp add: heap_step_def)
    have e12: "proto (objs h2 r) = proto (objs h1 r) \<and> props (objs h2 r) = props (objs h1 r) \<and>
            extensible (objs h2 r) = extensible (objs h1 r)"
      using assms(1) r fr by (simp add: heap_step_def)
    then have "frozen_obj (objs h2 r)" using fr frozen_obj_cong by metis
    then have "proto (objs h3 r) = proto (objs h2 r) \<and> props (objs h3 r) = props (objs h2 r) \<and>
            extensible (objs h3 r) = extensible (objs h2 r)"
      using assms(2) r2 by (simp add: heap_step_def)
    with e12 show ?thesis by simp
  qed
  show ?thesis unfolding heap_step_def using n f t p by blast
qed

lemma grows_refl [simp]: "grows st st"
  by (simp add: grows_def)

lemma grows_trans: "grows a b \<Longrightarrow> grows b c \<Longrightarrow> grows a c"
  unfolding grows_def using prefix_order.trans by auto

lemma evolves_refl [simp]: "evolves st st"
  by (simp add: evolves_def)

lemma evolves_trans: "evolves a b \<Longrightarrow> evolves b c \<Longrightarrow> evolves a c"
  unfolding evolves_def using heap_step_trans grows_trans by blast

lemma evolves_grows: "evolves a b \<Longrightarrow> grows a b"
  by (simp add: evolves_def)

lemma for_each_preserves:
  assumes "P st" and "\<And>x s. x \<in> set xs \<Longrightarrow> P s \<Longrightarrow> P (res_state (f x s))"
  shows "P (res_state (for_each f xs st))"
  using assms
proof (induction xs arbitrary: st)
  case Nil
  then show ?case by simp
next
  case (Cons x xs)
  show ?case
  proof (cases "f x st")
    case (Inl a)
    then show ?thesis using Cons.prems(2) [of x st] Cons.prems(1) by (cases a) auto
  next
    case (Inr st1)
    then have "P st1" using Cons.prems(2) [of x st] Cons.prems(1) by auto
    then have "P (res_state (for_each f xs st1))"
      using Cons.IH [of st1] Cons.prems(2) by simp
    then show ?thesis using Inr by simp
  qed
qed

lemma for_each_evolves:
  assumes "\<And>x s. x \<in> set xs \<Longrightarrow> evolves s (res_state (f x s))"
  shows "evolves st (res_state (for_each f xs st))"
  using for_each_preserves [of "evolves st" st xs f] assms evolves_trans by fastforce

subsection \<open>Every primitive is a heap step\<close>

lemma heap_step_set_obj:
  assumes "typeof ob = typeof (objs h r) \<and> code ob = code (objs h r)"
    and "frozen_obj (objs h r) \<Longrightarrow>
           proto ob = proto (objs h r) \<and> props ob = props (objs h r) \<and> extensible ob = extensible (objs h r)"
  shows "heap_step h (set_obj h r ob)"
  using assms by (simp add: heap_step_def set_obj_def)

lemma frozen_desc_fixed: "frozen_desc d \<Longrightarrow> freeze_desc d = d"
  by (cases d) auto

lemma frozen_props_fixed:
  "list_all (\<lambda>kd. frozen_desc (snd kd)) ps \<Longrightarrow> map (\<lambda>(k, d). (k, freeze_desc d)) ps = ps"
  by (induction ps) (auto simp: frozen_desc_fixed)

lemma heap_step_freeze: "heap_step h (freeze h r)"
  unfolding freeze_def
  by (rule heap_step_set_obj) (auto simp: frozen_obj_def frozen_props_fixed)

lemma replace_prop_same: "map_of ps k = Some d \<Longrightarrow> replace_prop k d ps = ps"
  by (induction ps) (auto split: if_splits)

lemma frozen_lookup:
  "list_all (\<lambda>kd. frozen_desc (snd kd)) ps \<Longrightarrow> map_of ps k = Some d \<Longrightarrow> frozen_desc d"
  by (induction ps) (auto split: if_splits)

lemma frozen_redefinition: "frozen_desc cur \<Longrightarrow> redefinition_allowed cur d \<Longrightarrow> d = cur"
  by (cases cur; cases d) auto

lemma heap_step_defineProperty:
  assumes "defineProperty h t k d = Inr h'"
  shows "heap_step h h'"
proof (cases t)
  case (VRef r)
  show ?thesis
  proof (cases "map_of (props (objs h r)) k")
    case None
    then have h': "h' = set_obj h r ((objs h r)\<lparr>props := props (objs h r) @ [(k, d)]\<rparr>)"
      and ext: "extensible (objs h r)"
      using assms VRef by (auto simp: defineProperty_def split: if_splits)
    show ?thesis unfolding h'
      by (rule heap_step_set_obj) (use ext in \<open>auto simp: frozen_obj_def\<close>)
  next
    case (Some cur)
    then have h': "h' = set_obj h r ((objs h r)\<lparr>props := replace_prop k d (props (objs h r))\<rparr>)"
      and al: "redefinition_allowed cur d"
      using assms VRef by (auto simp: defineProperty_def split: if_splits)
    show ?thesis unfolding h'
    proof (rule heap_step_set_obj)
      show "typeof ((objs h r)\<lparr>props := replace_prop k d (props (objs h r))\<rparr>) = typeof (objs h r) \<and>
          code ((objs h r)\<lparr>props := replace_prop k d (props (objs h r))\<rparr>) = code (objs h r)"
        by simp
    next
      assume fr: "frozen_obj (objs h r)"
      then have "frozen_desc cur" using Some frozen_lookup by (auto simp: frozen_obj_def)
      then have "d = cur" using al frozen_redefinition by blast
      then have "replace_prop k d (props (objs h r)) = props (objs h r)"
        using Some replace_prop_same by simp
      then show "proto ((objs h r)\<lparr>props := replace_prop k d (props (objs h r))\<rparr>) = proto (objs h r) \<and>
          props ((objs h r)\<lparr>props := replace_prop k d (props (objs h r))\<rparr>) = props (objs h r) \<and>
          extensible ((objs h r)\<lparr>props := replace_prop k d (props (objs h r))\<rparr>) = extensible (objs h r)"
        by simp
    qed
  qed
qed (use assms in \<open>auto simp: defineProperty_def\<close>)

lemma heap_step_defineProperty_res:
  "heap_step h (case defineProperty h t k d of Inl e \<Rightarrow> h | Inr h' \<Rightarrow> h')"
  using heap_step_defineProperty by (cases "defineProperty h t k d") auto

subsection \<open>What one rewrite does\<close>

lemma new_accessor_pair_eq:
  "new_accessor_pair h ob name v = (next_ref h, Suc (next_ref h), install_pair h ob name v)"
  by (simp add: new_accessor_pair_def alloc_def method_function_def set_obj_def freeze_def
      install_pair_def getter_obj_def setter_obj_def Let_def fun_upd_twist)

lemma override_data_alt:
  "override_data ob name v e st =
     (case defineProperty (install_pair (heap st) ob name v) (VRef ob) name
             (AccessorDesc (VRef (next_ref (heap st))) (VRef (Suc (next_ref (heap st)))) e False) of
        Inl err \<Rightarrow> Inl (err, st\<lparr>heap := install_pair (heap st) ob name v,
            toFreeze := set_add (set_add (toFreeze st) (next_ref (heap st))) (Suc (next_ref (heap st)))\<rparr>)
      | Inr h6 \<Rightarrow> Inr (st\<lparr>heap := h6,
            toFreeze := set_add (set_add (toFreeze st) (next_ref (heap st))) (Suc (next_ref (heap st)))\<rparr>))"
  by (simp add: override_data_def new_accessor_pair_eq Let_def split: sum.splits)

lemma heap_step_install_pair: "heap_step h (install_pair h ob name v)"
  by (simp add: heap_step_def install_pair_def)

lemma prefix_set_add: "prefix xs (set_add xs x)"
  by (simp add: set_add_def)

lemma prefix_set_add2: "prefix xs (set_add (set_add xs x) y)"
  using prefix_set_add prefix_order.trans by blast

lemma override_data_evolves: "evolves st (res_state (override_data ob name v e st))"
proof -
  let ?h5 = "install_pair (heap st) ob name v"
  let ?d = "AccessorDesc (VRef (next_ref (heap st))) (VRef (Suc (next_ref (heap st)))) e False"
  have "heap_step (heap st) (case defineProperty ?h5 (VRef ob) name ?d of Inl e \<Rightarrow> ?h5 | Inr h' \<Rightarrow> h')"
    using heap_step_trans [OF heap_step_install_pair heap_step_defineProperty_res] .
  then show ?thesis
    by (auto simp: override_data_alt Let_def evolves_def grows_def prefix_set_add2 split: sum.splits)
qed

lemma override_accessor_evolves: "evolves st (res_state (override_accessor ob name g s e st))"
  using heap_step_defineProperty_res [of "heap st" "VRef ob" name "AccessorDesc g s e False"]
  by (auto simp: override_accessor_def evolves_def grows_def split: sum.splits)

lemma override_one_evolves: "evolves st (res_state (override_one ob nd st))"
  by (auto simp: override_one_def override_data_evolves override_accessor_evolves
      split: prod.splits desc.splits)

lemma freezeWithOverride_evolves: "evolves st (res_state (freezeWithOverride ob st))"
proof -
  let ?r = "for_each (override_one ob) (getOwnPropertyDescriptors (heap st) ob) st"
  have a: "evolves st (res_state ?r)"
    by (rule for_each_evolves) (rule override_one_evolves)
  show ?thesis
  proof (cases ?r)
    case (Inl x)
    then show ?thesis using a by (simp add: freezeWithOverride_def)
  next
    case (Inr st1)
    have "evolves st1 (st1\<lparr>heap := freeze (heap st1) ob\<rparr>)"
      by (simp add: evolves_def grows_def heap_step_freeze)
    then show ?thesis using a Inr evolves_trans by (fastforce simp: freezeWithOverride_def)
  qed
qed

lemma enqueue_evolves: "evolves st (res_state (enqueue v p st))"
  by (simp add: enqueue_def evolves_def grows_def split: val.splits typeof_tag.splits)

lemma traverse_one_evolves: "evolves st (res_state (traverse_one path nd st))"
proof (cases nd)
  case (Pair name d)
  show ?thesis
  proof (cases d)
    case (DataDesc v w e c)
    then show ?thesis using Pair enqueue_evolves by (simp add: traverse_one_def Let_def)
  next
    case (AccessorDesc g s e c)
    let ?pn = "path @ ''.'' @ String name"
    show ?thesis
    proof (cases "enqueue g (Some (?pn @ ''(get)'')) st")
      case (Inl x)
      then show ?thesis
        using enqueue_evolves [of st g "Some (?pn @ ''(get)'')"] Pair AccessorDesc
        by (simp add: traverse_one_def Let_def)
    next
      case (Inr st1)
      then show ?thesis
        using enqueue_evolves [of st g "Some (?pn @ ''(get)'')"]
          enqueue_evolves [of st1 s "Some (?pn @ ''(set)'')"] Pair AccessorDesc evolves_trans
        by (fastforce simp: traverse_one_def Let_def)
    qed
  qed
qed

lemma record_prototype_evolves: "evolves st (record_prototype pr path st)"
  by (simp add: record_prototype_def evolves_def grows_def split: option.splits)

lemma run_hook_grows: "grows st (res_state (run_hook c ob st))"
  by (auto simp: run_hook_def grows_def split: option.splits prod.splits)

lemma run_hook_evolves: "hook_ok c \<Longrightarrow> evolves st (res_state (run_hook c ob st))"
proof (cases "naivePrepareObject c")
  case None
  then show ?thesis by (simp add: run_hook_def)
next
  case (Some f)
  assume "hook_ok c"
  then have "heap_step (heap st) (snd (f ob (heap st)))"
    using Some by (simp add: hook_ok_def)
  then show ?thesis using Some
    by (auto simp: run_hook_def evolves_def grows_def split: prod.splits option.splits)
qed

lemma traverse_evolves:
  "evolves st (res_state (for_each (traverse_one path) ds (record_prototype pr path st)))"
  using evolves_trans [OF record_prototype_evolves for_each_evolves [of ds "traverse_one path"]]
    traverse_one_evolves by blast

lemma freezeAndTraverse_cases:
  obtains (hook_throws) x where "run_hook c ob st = Inl x" "freezeAndTraverse c ob st = Inl x"
  | (freeze_throws) st1 x where "run_hook c ob st = Inr st1" "freezeWithOverride ob st1 = Inl x"
      "freezeAndTraverse c ob st = Inl x"
  | (traversed) st1 st2 where "run_hook c ob st = Inr st1" "freezeWithOverride ob st1 = Inr st2"
      "freezeAndTraverse c ob st =
         for_each (traverse_one (path_of st2 ob)) (getOwnPropertyDescriptors (heap st2) ob)
           (record_prototype (getPrototypeOf (heap st2) ob) (path_of st2 ob) st2)"
  by (cases "run_hook c ob st"; cases "freezeWithOverride ob (projr (run_hook c ob st))")
     (auto simp: freezeAndTraverse_def Let_def)

lemma freezeAndTraverse_grows: "grows st (res_state (freezeAndTraverse c ob st))"
proof (cases c ob st rule: freezeAndTraverse_cases)
  case (hook_throws x)
  then show ?thesis using run_hook_grows [of st c ob] by simp
next
  case (freeze_throws st1 x)
  then show ?thesis
    using run_hook_grows [of st c ob] evolves_grows [OF freezeWithOverride_evolves [of st1 ob]]
      grows_trans by fastforce
next
  case (traversed st1 st2)
  have a: "grows st st1" using run_hook_grows [of st c ob] traversed by simp
  have b: "grows st1 st2"
    using evolves_grows [OF freezeWithOverride_evolves [of st1 ob]] traversed by simp
  have "grows st2 (res_state (freezeAndTraverse c ob st))"
    unfolding traversed(3) by (rule evolves_grows [OF traverse_evolves])
  then show ?thesis using a b grows_trans by blast
qed

lemma freezeAndTraverse_evolves:
  assumes "hook_ok c"
  shows "evolves st (res_state (freezeAndTraverse c ob st))"
proof (cases c ob st rule: freezeAndTraverse_cases)
  case (hook_throws x)
  then show ?thesis using run_hook_evolves [OF assms, of st ob] by simp
next
  case (freeze_throws st1 x)
  then show ?thesis
    using run_hook_evolves [OF assms, of st ob] freezeWithOverride_evolves [of st1 ob]
      evolves_trans by fastforce
next
  case (traversed st1 st2)
  have a: "evolves st st1" using run_hook_evolves [OF assms, of st ob] traversed by simp
  have b: "evolves st1 st2" using freezeWithOverride_evolves [of st1 ob] traversed by simp
  have "evolves st2 (res_state (freezeAndTraverse c ob st))"
    unfolding traversed(3) by (rule traverse_evolves)
  then show ?thesis using a b evolves_trans by blast
qed

lemma dequeue_from_grows:
  assumes "dequeue_from c i st = Some r"
  shows "grows st (res_state r)"
  using assms
proof (induction rule: dequeue_from.raw_induct [rotated 1, consumes 1])
  case (1 deq c i st r)
  show ?case
  proof (cases "i < length (toFreeze st)")
    case False
    then show ?thesis using 1(2) by auto
  next
    case True
    show ?thesis
    proof (cases "freezeAndTraverse c (toFreeze st ! i) st")
      case (Inl x)
      then show ?thesis
        using 1(2) True freezeAndTraverse_grows [of st c "toFreeze st ! i"] by auto
    next
      case (Inr st1)
      then have "deq c (Suc i) st1 = Some r" using 1(2) True by simp
      then have "grows st1 (res_state r)" by (rule 1(1))
      then show ?thesis
        using Inr freezeAndTraverse_grows [of st c "toFreeze st ! i"] grows_trans by fastforce
    qed
  qed
qed

lemma dequeue_from_evolves:
  assumes "dequeue_from c i st = Some r" "hook_ok c"
  shows "evolves st (res_state r)"
  using assms
proof (induction rule: dequeue_from.raw_induct [rotated 1, consumes 1])
  case (1 deq c i st r)
  show ?case
  proof (cases "i < length (toFreeze st)")
    case False
    then show ?thesis using 1(2) by auto
  next
    case True
    show ?thesis
    proof (cases "freezeAndTraverse c (toFreeze st ! i) st")
      case (Inl x)
      then show ?thesis
        using 1(2) True freezeAndTraverse_evolves [OF 1(3), of st "toFreeze st ! i"] by auto
    next
      case (Inr st1)
      then have "deq c (Suc i) st1 = Some r" using 1(2) True by simp
      then have "evolves st1 (res_state r)" using 1(1) 1(3) by blast
      then show ?thesis
        using Inr freezeAndTraverse_evolves [OF 1(3), of st "toFreeze st ! i"] evolves_trans
        by fastforce
    qed
  qed
qed

lemma check_each_state: "check_each ps st = Inl (e, st') \<Longrightarrow> st' = st"
  by (induction ps st rule: check_each.induct) (auto split: if_splits)

lemma check_each_Inr: "check_each ps st = Inr st' \<Longrightarrow> st' = st"
  by (induction ps st rule: check_each.induct) (auto split: if_splits)

lemma checkPrototypes_state: "res_state (checkPrototypes st) = st"
proof (cases "checkPrototypes st")
  case (Inl a)
  then show ?thesis using check_each_state [of "prototypes st" st "fst a" "snd a"]
    by (cases a) (simp add: checkPrototypes_def)
next
  case (Inr b)
  then show ?thesis using check_each_Inr by (simp add: checkPrototypes_def)
qed

lemma check_each_find:
  "check_each ps st =
     (case find (offending st) ps of
        None \<Rightarrow> Inr st
      | Some (p, path) \<Rightarrow> Inl (UnreachablePrototype (unreachable_message (heap st) p path), st))"
  by (induction ps st rule: check_each.induct) (auto simp: offending_def)

lemma walk_cases:
  obtains (enqueue_throws) x where "enqueue root None (new_call h fr) = Inl x" "walk c root h fr = Some (Inl x)"
  | (diverges) st0 where "enqueue root None (new_call h fr) = Inr st0" "dequeue_from c 0 st0 = None"
      "walk c root h fr = None"
  | (dequeue_throws) st0 x where "enqueue root None (new_call h fr) = Inr st0"
      "dequeue_from c 0 st0 = Some (Inl x)" "walk c root h fr = Some (Inl x)"
  | (checked) st0 st1 where "enqueue root None (new_call h fr) = Inr st0"
      "dequeue_from c 0 st0 = Some (Inr st1)" "walk c root h fr = Some (checkPrototypes st1)"
proof (cases "enqueue root None (new_call h fr)")
  case (Inl x)
  then show ?thesis using enqueue_throws by (simp add: walk_def)
next
  case (Inr st0)
  show ?thesis
  proof (cases "dequeue_from c 0 st0")
    case None
    then show ?thesis using Inr diverges by (simp add: walk_def dequeue_def)
  next
    case (Some r)
    then show ?thesis using Inr dequeue_throws checked
      by (cases r) (simp_all add: walk_def dequeue_def)
  qed
qed

lemma walk_grows:
  assumes "walk c root h fr = Some r"
  shows "grows (new_call h fr) (res_state r)"
proof (cases rule: walk_cases [where root=root and h=h and fr=fr and c=c])
  case (enqueue_throws x)
  then show ?thesis
    using assms evolves_grows [OF enqueue_evolves [of "new_call h fr" root None]] by simp
next
  case (diverges st0)
  then show ?thesis using assms by simp
next
  case (dequeue_throws st0 x)
  then show ?thesis
    using assms evolves_grows [OF enqueue_evolves [of "new_call h fr" root None]]
      dequeue_from_grows [of c 0 st0 "Inl x"] grows_trans by fastforce
next
  case (checked st0 st1)
  then show ?thesis
    using assms evolves_grows [OF enqueue_evolves [of "new_call h fr" root None]]
      dequeue_from_grows [of c 0 st0 "Inr st1"] grows_trans checkPrototypes_state [of st1]
    by fastforce
qed

lemma walk_fringe: "walk c root h fr = Some r \<Longrightarrow> fringeSet (res_state r) = fr"
  using walk_grows [of c root h fr r] by (simp add: grows_def new_call_def)

subsection \<open>Running the model on a concrete heap\<close>

lemmas run_defs = harden_def walk_def dequeue_def dequeue_from.simps enqueue_def new_call_def
  freezeAndTraverse_def run_hook_def freezeWithOverride_def getOwnPropertyDescriptors_def
  getPrototypeOf_def alloc_def method_function_def set_obj_def freeze_def set_add_def
  defineProperty_def path_of_def record_prototype_def checkPrototypes_def
  unreachable_message_def commit_def Let_def new_accessor_pair_def override_one_def
  override_data_def override_accessor_def traverse_one_def outcome_def heap_after_def
  fringe_after_def

lemmas demo_defs = no_hook_def demo_heap_def plain_object_def bare_object_def native_function_def

lemma outcomeD: "outcome r = Some x \<Longrightarrow> r = Some (x, heap_after r, fringe_after r)"
  by (cases r) (auto simp: outcome_def heap_after_def fringe_after_def)

lemma demo_first_call:
  "outcome (harden no_hook (VRef 2) demo_heap {0, 1}) =
     Some (Inl (UnreachablePrototype
       ''prototype [object Object] of unknown.value is not already in the fringeSet''))"
  by (simp add: run_defs demo_defs)

lemma fold_insert_set: "fold (\<lambda>x acc. insert x acc) xs A = A \<union> set xs"
  by (induction xs arbitrary: A) auto

lemma find_offending_None:
  "(find (offending st) ps = None) = (\<not> (\<exists>pp\<in>set ps. fst pp \<notin> set (toFreeze st) \<and> fst pp \<notin> fringeSet st))"
  by (auto simp: find_None_iff offending_def)

lemma harden_after_dequeue:
  assumes "enqueue root None (new_call h fr) = Inr st0" and "dequeue c st0 = Some (Inr st1)"
  shows "harden c root h fr =
     (case find (offending st1) (prototypes st1) of
        None \<Rightarrow> Some (Inr root, heap st1, fr \<union> set (toFreeze st1))
      | Some (p, path) \<Rightarrow>
          Some (Inl (UnreachablePrototype (unreachable_message (heap st1) p path)), heap st1, fr))"
proof -
  have f0: "fringeSet st0 = fr"
    using evolves_grows [OF enqueue_evolves [of "new_call h fr" root None]] assms(1)
    by (simp add: grows_def new_call_def)
  have "fringeSet st1 = fringeSet st0"
    using dequeue_from_grows [of c 0 st0 "Inr st1"] assms(2) by (simp add: dequeue_def grows_def)
  then have f1: "fringeSet st1 = fr" using f0 by simp
  have w: "walk c root h fr = Some (checkPrototypes st1)"
    using assms by (simp add: walk_def)
  show ?thesis
    using f1 by (auto simp: harden_def w checkPrototypes_def check_each_find commit_def
        split: option.splits)
qed

lemma Inr_projr: "\<not> isl x \<Longrightarrow> x = Inr (projr x)"
  by (cases x) auto

lemma Some_Inr_projr: "d \<noteq> None \<Longrightarrow> \<not> isl (the d) \<Longrightarrow> d = Some (Inr (projr (the d)))"
  by (cases d) (auto simp: Inr_projr)

lemma demo_enqueue: "enqueue (VRef 2) None (new_call demo_heap {0, 1}) = Inr demo_queued"
  unfolding demo_queued_def by (rule Inr_projr) (simp add: run_defs demo_defs)

lemma demo_dequeue: "dequeue no_hook demo_queued = Some (Inr demo_walked)"
  unfolding demo_walked_def
  by (rule Some_Inr_projr) (simp_all add: demo_queued_def run_defs demo_defs)

lemma dequeue_from_empty: "toFreeze st = [] \<Longrightarrow> dequeue_from c i st = Some (Inr st)"
  by (simp add: dequeue_from.simps)

lemma hook_ok_no_hook: "hook_ok no_hook"
  by (simp add: hook_ok_def no_hook_def)

lemma demo_second_call:
  "outcome (harden no_hook (VRef 2) demo_heap {0, 1, 4}) = Some (Inr (VRef 2))"
  by (simp add: run_defs demo_defs)

subsection \<open>What the traversal covers\<close>

lemma covered_grows: "grows st st' \<Longrightarrow> covered st r \<Longrightarrow> covered st' r"
  by (auto simp: covered_def grows_def dest: set_mono_prefix)

lemma enqueue_heap: "heap (res_state (enqueue v p st)) = heap st"
  by (simp add: enqueue_def split: val.splits typeof_tag.splits)

lemma enqueue_covers: "enqueue v p st = Inr st' \<Longrightarrow> r \<in> val_refs v \<Longrightarrow> covered st' r"
  by (cases v) (auto simp: enqueue_def covered_def split: typeof_tag.splits if_splits)

lemma traverse_one_heap: "heap (res_state (traverse_one path nd st)) = heap st"
proof (cases nd)
  case (Pair name d)
  show ?thesis
  proof (cases d)
    case (DataDesc v w e c)
    then show ?thesis using Pair enqueue_heap by (simp add: traverse_one_def Let_def)
  next
    case (AccessorDesc g s e c)
    let ?pn = "path @ ''.'' @ String name"
    show ?thesis
    proof (cases "enqueue g (Some (?pn @ ''(get)'')) st")
      case (Inl x)
      then show ?thesis
        using enqueue_heap [of g "Some (?pn @ ''(get)'')" st] Pair AccessorDesc
        by (simp add: traverse_one_def Let_def)
    next
      case (Inr st1)
      then show ?thesis
        using enqueue_heap [of g "Some (?pn @ ''(get)'')" st]
          enqueue_heap [of s "Some (?pn @ ''(set)'')" st1] Pair AccessorDesc
        by (simp add: traverse_one_def Let_def)
    qed
  qed
qed

lemma traverse_one_covers:
  assumes "traverse_one path (name, d) st = Inr st'" and "r \<in> desc_refs d"
  shows "covered st' r"
proof (cases d)
  case (DataDesc v w e c)
  then show ?thesis using assms enqueue_covers by (auto simp: traverse_one_def Let_def)
next
  case (AccessorDesc g s e c)
  let ?pn = "path @ ''.'' @ String name"
  obtain st1 where 1: "enqueue g (Some (?pn @ ''(get)'')) st = Inr st1"
    and 2: "enqueue s (Some (?pn @ ''(set)'')) st1 = Inr st'"
    using assms(1) AccessorDesc by (auto simp: traverse_one_def Let_def split: sum.splits)
  have g12: "grows st1 st'"
    using evolves_grows [OF enqueue_evolves [of st1 s "Some (?pn @ ''(set)'')"]] 2 by simp
  from assms(2) AccessorDesc consider "r \<in> val_refs g" | "r \<in> val_refs s" by auto
  then show ?thesis
  proof cases
    case 1
    then have "covered st1 r" using enqueue_covers \<open>enqueue g _ st = Inr st1\<close> by blast
    then show ?thesis using covered_grows g12 by blast
  next
    case 2
    then show ?thesis using enqueue_covers \<open>enqueue s _ st1 = Inr st'\<close> by blast
  qed
qed

lemma for_each_Inr_Cons:
  "for_each f (x # xs) st = Inr st' \<Longrightarrow> \<exists>st1. f x st = Inr st1 \<and> for_each f xs st1 = Inr st'"
  by (cases "f x st") auto

lemma for_each_traverse_grows: "grows st (res_state (for_each (traverse_one path) ds st))"
  by (rule evolves_grows [OF for_each_evolves]) (rule traverse_one_evolves)

lemma for_each_traverse_covers:
  assumes "for_each (traverse_one path) ds st = Inr st'" and "nd \<in> set ds" and "r \<in> desc_refs (snd nd)"
  shows "covered st' r"
  using assms
proof (induction ds arbitrary: st)
  case Nil
  then show ?case by simp
next
  case (Cons x xs)
  obtain st1 where 1: "traverse_one path x st = Inr st1"
    and 2: "for_each (traverse_one path) xs st1 = Inr st'"
    using for_each_Inr_Cons [OF Cons.prems(1)] by blast
  show ?case
  proof (cases "nd = x")
    case True
    then have "covered st1 r" using traverse_one_covers [of path "fst x" "snd x" st st1 r] 1 Cons.prems(3)
      by simp
    moreover have "grows st1 st'" using for_each_traverse_grows [of st1 path xs] 2 by simp
    ultimately show ?thesis using covered_grows by blast
  next
    case False
    then show ?thesis using Cons.IH [OF 2] Cons.prems by simp
  qed
qed

lemma for_each_traverse_heap: "heap (res_state (for_each (traverse_one path) ds st)) = heap st"
  using for_each_preserves [of "\<lambda>s. heap s = heap st" st ds "traverse_one path"] traverse_one_heap
  by simp

lemma frozen_after_freeze: "frozen_obj (objs (freeze h r) r)"
proof -
  have "list_all (\<lambda>kd. frozen_desc (snd kd)) (map (\<lambda>(k, d). (k, freeze_desc d)) ps)" for ps
  proof (induction ps)
    case (Cons a ps)
    then show ?case by (cases a; cases "snd a") auto
  qed simp
  then show ?thesis by (simp add: freeze_def set_obj_def frozen_obj_def)
qed

lemma freezeWithOverride_frozen:
  "freezeWithOverride ob st = Inr st' \<Longrightarrow> frozen_obj (objs (heap st') ob)"
  by (auto simp: freezeWithOverride_def frozen_after_freeze split: sum.splits)

lemma record_prototype_heap: "heap (record_prototype pr path st) = heap st"
  by (simp add: record_prototype_def split: option.splits)

subsection \<open>The accessor pair after the rewrite\<close>

lemma override_pairI:
  "map_of (props (objs h ob)) k = Some (AccessorDesc (VRef g) (VRef s) e False) \<Longrightarrow>
   g < next_ref h \<Longrightarrow> s < next_ref h \<Longrightarrow> code (objs h g) = OverrideGetter v \<Longrightarrow>
   code (objs h s) = OverrideSetter ob k \<Longrightarrow> override_pair h ob k v"
  by (simp add: override_pair_def)

lemma override_pairE:
  assumes "override_pair h ob k v"
  obtains g s e where "map_of (props (objs h ob)) k = Some (AccessorDesc (VRef g) (VRef s) e False)"
    "g < next_ref h" "s < next_ref h" "code (objs h g) = OverrideGetter v"
    "code (objs h s) = OverrideSetter ob k"
  using assms
  by (auto simp: override_pair_def split: option.splits desc.splits val.splits)

lemma map_of_replace_prop_same:
  "map_of ps k \<noteq> None \<Longrightarrow> map_of (replace_prop k d ps) k = Some d"
  by (induction ps) auto

lemma map_of_replace_prop_other:
  "k' \<noteq> k \<Longrightarrow> map_of (replace_prop k d ps) k' = map_of ps k'"
  by (induction ps) auto

lemma defineProperty_effect:
  assumes "defineProperty h (VRef r) k d = Inr h'"
  shows "map_of (props (objs h' r)) k = Some d"
    and "k' \<noteq> k \<Longrightarrow> map_of (props (objs h' r)) k' = map_of (props (objs h r)) k'"
    and "r' \<noteq> r \<Longrightarrow> objs h' r' = objs h r'"
    and "code (objs h' x) = code (objs h x)"
    and "proto (objs h' x) = proto (objs h x)"
    and "extensible (objs h' x) = extensible (objs h x)"
    and "to_string (objs h' x) = to_string (objs h x)"
    and "next_ref h' = next_ref h"
    and "function_prototype h' = function_prototype h"
proof -
  have h': "h' = set_obj h r ((objs h r)\<lparr>props := props (objs h r) @ [(k, d)]\<rparr>) \<and>
            map_of (props (objs h r)) k = None \<or>
            h' = set_obj h r ((objs h r)\<lparr>props := replace_prop k d (props (objs h r))\<rparr>) \<and>
            map_of (props (objs h r)) k \<noteq> None"
    using assms by (auto simp: defineProperty_def split: option.splits if_splits)
  show "map_of (props (objs h' r)) k = Some d"
    using h' by (auto simp: set_obj_def map_of_replace_prop_same map_add_def)
  show "k' \<noteq> k \<Longrightarrow> map_of (props (objs h' r)) k' = map_of (props (objs h r)) k'"
    using h' by (auto simp: set_obj_def map_of_replace_prop_other map_add_def split: option.splits)
  show "r' \<noteq> r \<Longrightarrow> objs h' r' = objs h r'" using h' by (auto simp: set_obj_def)
  show "code (objs h' x) = code (objs h x)" using h' by (cases "x = r") (auto simp: set_obj_def)
  show "proto (objs h' x) = proto (objs h x)" using h' by (cases "x = r") (auto simp: set_obj_def)
  show "extensible (objs h' x) = extensible (objs h x)" using h' by (cases "x = r") (auto simp: set_obj_def)
  show "to_string (objs h' x) = to_string (objs h x)" using h' by (cases "x = r") (auto simp: set_obj_def)
  show "next_ref h' = next_ref h" using h' by (auto simp: set_obj_def)
  show "function_prototype h' = function_prototype h" using h' by (auto simp: set_obj_def)
qed

lemma override_pair_defineProperty:
  assumes "defineProperty h (VRef ob) k' d = Inr h'" and "k' \<noteq> k" and "override_pair h ob k v"
  shows "override_pair h' ob k v"
proof -
  from assms(3) obtain g s e where p: "map_of (props (objs h ob)) k = Some (AccessorDesc (VRef g) (VRef s) e False)"
    "g < next_ref h" "s < next_ref h" "code (objs h g) = OverrideGetter v"
    "code (objs h s) = OverrideSetter ob k"
    by (rule override_pairE)
  note e = defineProperty_effect [OF assms(1)]
  show ?thesis
    by (rule override_pairI [of _ _ _ g s e]) (use p e assms(2) in auto)
qed

lemma install_pair_objs:
  "objs (install_pair h ob name v) r =
     (if r = next_ref h then getter_obj (function_prototype h) v
      else if r = Suc (next_ref h) then setter_obj (function_prototype h) ob name
      else objs h r)"
  by (simp add: install_pair_def)

lemma install_pair_next: "next_ref (install_pair h ob name v) = Suc (Suc (next_ref h))"
  by (simp add: install_pair_def)

lemma override_pair_install_pair:
  assumes "override_pair h ob k v" and "ob < next_ref h"
  shows "override_pair (install_pair h ob' name v') ob k v"
proof -
  from assms(1) obtain g s e where p: "map_of (props (objs h ob)) k = Some (AccessorDesc (VRef g) (VRef s) e False)"
    "g < next_ref h" "s < next_ref h" "code (objs h g) = OverrideGetter v"
    "code (objs h s) = OverrideSetter ob k"
    by (rule override_pairE)
  show ?thesis
    by (rule override_pairI [of _ _ _ g s e])
      (use p assms(2) in \<open>auto simp: install_pair_objs install_pair_next\<close>)
qed

lemma override_data_InrD:
  assumes "override_data ob name v e st = Inr st'"
  shows "defineProperty (install_pair (heap st) ob name v) (VRef ob) name
           (AccessorDesc (VRef (next_ref (heap st))) (VRef (Suc (next_ref (heap st)))) e False) =
         Inr (heap st')"
    and "toFreeze st' = set_add (set_add (toFreeze st) (next_ref (heap st))) (Suc (next_ref (heap st)))"
  using assms by (auto simp: override_data_alt split: sum.splits)

lemma override_data_pair:
  assumes "override_data ob name v e st = Inr st'" and "ob < next_ref (heap st)"
  shows "override_pair (heap st') ob name v"
proof -
  note d = defineProperty_effect [OF override_data_InrD(1) [OF assms(1)]]
  let ?n = "next_ref (heap st)"
  show ?thesis
  proof (rule override_pairI [of _ _ _ ?n "Suc ?n" e])
    show "map_of (props (objs (heap st') ob)) name = Some (AccessorDesc (VRef ?n) (VRef (Suc ?n)) e False)"
      by (rule d(1))
    show "?n < next_ref (heap st')" "Suc ?n < next_ref (heap st')"
      by (simp_all add: d(8) install_pair_next)
    show "code (objs (heap st') ?n) = OverrideGetter v"
      by (simp add: d(4) install_pair_objs getter_obj_def)
    show "code (objs (heap st') (Suc ?n)) = OverrideSetter ob name"
      by (simp add: d(4) install_pair_objs setter_obj_def)
  qed
qed

lemma override_one_keeps_pair:
  assumes "override_one ob (k', d') st = Inr st'" and "k' \<noteq> k" and "ob < next_ref (heap st)"
    and "override_pair (heap st) ob k v"
  shows "override_pair (heap st') ob k v"
proof (cases "configurable d'")
  case False
  then show ?thesis using assms by (simp add: override_one_def)
next
  case True
  show ?thesis
  proof (cases d')
    case (DataDesc v' w e c)
    then have o: "override_data ob k' v' e st = Inr st'"
      using assms(1) True by (simp add: override_one_def)
    show ?thesis
      using override_pair_defineProperty [OF override_data_InrD(1) [OF o] assms(2)]
        override_pair_install_pair [OF assms(4) assms(3)] by blast
  next
    case (AccessorDesc g s e c)
    then have "defineProperty (heap st) (VRef ob) k' (AccessorDesc g s e False) = Inr (heap st')"
      using assms(1) True by (auto simp: override_one_def override_accessor_def split: sum.splits)
    then show ?thesis using override_pair_defineProperty assms(2,4) by blast
  qed
qed

lemma override_one_next:
  "override_one ob nd st = Inr st' \<Longrightarrow> next_ref (heap st) \<le> next_ref (heap st')"
  using override_one_evolves [of st ob nd] by (simp add: evolves_def heap_step_def)

lemma for_each_override_keeps_pair:
  assumes "for_each (override_one ob) ds st = Inr st'" and "k \<notin> fst ` set ds"
    and "ob < next_ref (heap st)" and "override_pair (heap st) ob k v"
  shows "override_pair (heap st') ob k v"
  using assms
proof (induction ds arbitrary: st)
  case Nil
  then show ?case by simp
next
  case (Cons x xs)
  obtain st1 where 1: "override_one ob x st = Inr st1"
    and 2: "for_each (override_one ob) xs st1 = Inr st'"
    using for_each_Inr_Cons [OF Cons.prems(1)] by blast
  have "override_pair (heap st1) ob k v"
    using override_one_keeps_pair [of ob "fst x" "snd x" st st1 k v] 1 Cons.prems by auto
  moreover have "ob < next_ref (heap st1)" using override_one_next [OF 1] Cons.prems(3) by simp
  ultimately show ?case using Cons.IH [OF 2] Cons.prems(2) by simp
qed

lemma for_each_override_pair:
  assumes "for_each (override_one ob) ds st = Inr st'" and "distinct (map fst ds)"
    and "ob < next_ref (heap st)" and "(k, DataDesc v w e True) \<in> set ds"
  shows "override_pair (heap st') ob k v"
  using assms
proof (induction ds arbitrary: st)
  case Nil
  then show ?case by simp
next
  case (Cons x xs)
  obtain st1 where 1: "override_one ob x st = Inr st1"
    and 2: "for_each (override_one ob) xs st1 = Inr st'"
    using for_each_Inr_Cons [OF Cons.prems(1)] by blast
  have n1: "ob < next_ref (heap st1)" using override_one_next [OF 1] Cons.prems(3) by simp
  show ?case
  proof (cases "x = (k, DataDesc v w e True)")
    case True
    then have "override_data ob k v e st = Inr st1" using 1 by (simp add: override_one_def)
    then have "override_pair (heap st1) ob k v" using override_data_pair Cons.prems(3) by blast
    moreover have "k \<notin> fst ` set xs" using Cons.prems(2) True by auto
    ultimately show ?thesis using for_each_override_keeps_pair [OF 2] n1 by blast
  next
    case False
    then show ?thesis using Cons.IH [OF 2 _ n1] Cons.prems by auto
  qed
qed

lemma map_of_frozen_props:
  "map_of (map (\<lambda>(k, d). (k, freeze_desc d)) ps) k = map_option freeze_desc (map_of ps k)"
  by (induction ps) auto

lemma override_pair_freeze:
  assumes "override_pair h ob k v"
  shows "override_pair (freeze h r) ob k v"
proof -
  from assms obtain g s e where p: "map_of (props (objs h ob)) k = Some (AccessorDesc (VRef g) (VRef s) e False)"
    "g < next_ref h" "s < next_ref h" "code (objs h g) = OverrideGetter v"
    "code (objs h s) = OverrideSetter ob k"
    by (rule override_pairE)
  show ?thesis
    by (rule override_pairI [of _ _ _ g s e])
      (use p in \<open>auto simp: freeze_def set_obj_def map_of_frozen_props\<close>)
qed

lemma freezeWithOverride_pair:
  assumes "freezeWithOverride ob st = Inr st'" and "distinct (map fst (props (objs (heap st) ob)))"
    and "ob < next_ref (heap st)" and "(k, DataDesc v w e True) \<in> set (props (objs (heap st) ob))"
  shows "override_pair (heap st') ob k v"
proof -
  obtain st1 where 1: "for_each (override_one ob) (props (objs (heap st) ob)) st = Inr st1"
    and 2: "st' = st1\<lparr>heap := freeze (heap st1) ob\<rparr>"
    using assms(1) by (auto simp: freezeWithOverride_def getOwnPropertyDescriptors_def split: sum.splits)
  show ?thesis using for_each_override_pair [OF 1 assms(2,3,4)] 2 override_pair_freeze by simp
qed

subsection \<open>Reads and writes through a rewritten property\<close>

lemma inherits_own_None: "inherits h k c r \<Longrightarrow> map_of (props (objs h c)) k = None"
  by (induction rule: inherits.induct) auto

lemma ordinary_set_inherits:
  "inherits h k c r \<Longrightarrow> ordinary_set h c k v recv = ordinary_set h r k v recv"
  by (induction rule: inherits.induct) (simp_all add: ordinary_set.simps [of h _ k v recv])

lemma ordinary_set_pair:
  assumes "override_pair h ob k v"
  shows "ordinary_set h ob k x recv = Some (override_set ob k h recv x)"
proof -
  from assms obtain g s e where p: "map_of (props (objs h ob)) k = Some (AccessorDesc (VRef g) (VRef s) e False)"
    "code (objs h s) = OverrideSetter ob k"
    by (rule override_pairE)
  show ?thesis by (simp add: ordinary_set.simps [of h ob k x recv] p call_setter_def)
qed

lemma ordinary_get_pair:
  assumes "override_pair h ob k v"
  shows "ordinary_get h ob k recv = Some v"
proof -
  from assms obtain g s e where p: "map_of (props (objs h ob)) k = Some (AccessorDesc (VRef g) (VRef s) e False)"
    "code (objs h g) = OverrideGetter v"
    by (rule override_pairE)
  show ?thesis by (simp add: ordinary_get.simps [of h ob k recv] p call_getter_def)
qed

lemma assign_direct:
  "override_pair h ob k v \<Longrightarrow> assign h ob k x = Some (Inl (read_only_error h k ob))"
  by (simp add: assign_def ordinary_set_pair override_set_def)

lemma read_direct: "override_pair h ob k v \<Longrightarrow> read h ob k = Some v"
  by (simp add: read_def ordinary_get_pair)

lemma override_pair_other_props:
  assumes "override_pair h ob k v" and "c \<noteq> ob"
  shows "override_pair (set_obj h c ((objs h c)\<lparr>props := ps\<rparr>)) ob k v"
proof -
  from assms(1) obtain g s e where p: "map_of (props (objs h ob)) k = Some (AccessorDesc (VRef g) (VRef s) e False)"
    "g < next_ref h" "s < next_ref h" "code (objs h g) = OverrideGetter v"
    "code (objs h s) = OverrideSetter ob k"
    by (rule override_pairE)
  show ?thesis
    by (rule override_pairI [of _ _ _ g s e]) (use p assms(2) in \<open>auto simp: set_obj_def\<close>)
qed

lemma assign_inherited:
  assumes "override_pair h ob k v" and "inherits h k c ob" and "extensible (objs h c)"
  shows "assign h c k x =
           Some (Inr (set_obj h c ((objs h c)\<lparr>props := props (objs h c) @ [(k, DataDesc x True True True)]\<rparr>)))"
proof -
  have own: "map_of (props (objs h c)) k = None" using inherits_own_None [OF assms(2)] .
  have "map_of (props (objs h ob)) k \<noteq> None" using assms(1) by (auto elim: override_pairE)
  then have ne: "c \<noteq> ob" using own by auto
  have "assign h c k x = Some (override_set ob k h (VRef c) x)"
    by (simp add: assign_def ordinary_set_inherits [OF assms(2)] ordinary_set_pair [OF assms(1)])
  then show ?thesis using ne own assms(3) by (simp add: override_set_def defineProperty_def)
qed

lemma override_pair_heap_step:
  assumes "override_pair h ob k v" and "frozen_obj (objs h ob)" and "ob < next_ref h"
    and "heap_step h h'"
  shows "override_pair h' ob k v"
proof -
  from assms(1) obtain g s e where p: "map_of (props (objs h ob)) k = Some (AccessorDesc (VRef g) (VRef s) e False)"
    "g < next_ref h" "s < next_ref h" "code (objs h g) = OverrideGetter v"
    "code (objs h s) = OverrideSetter ob k"
    by (rule override_pairE)
  show ?thesis
    by (rule override_pairI [of _ _ _ g s e]) (use p assms(2,3,4) in \<open>auto simp: heap_step_def\<close>)
qed

lemma freezeWithOverride_next:
  "freezeWithOverride ob st = Inr st' \<Longrightarrow> next_ref (heap st) \<le> next_ref (heap st')"
  using freezeWithOverride_evolves [of st ob] by (simp add: evolves_def heap_step_def)

lemmas write_defs = assign_def read_def ordinary_set.simps ordinary_get.simps call_setter_def
  call_getter_def override_set_def read_only_error_def set_on_receiver_def

lemma demo_freeze: "freezeWithOverride 2 demo_queued = Inr demo_frozen"
  unfolding demo_frozen_def by (rule Inr_projr) (simp add: demo_queued_def run_defs demo_defs)

lemma demo_frozen_heap:
  "objs (heap demo_frozen) 2 =
     (plain_object (Some 0) [(KStr ''x'', AccessorDesc (VRef 9) (VRef 10) True False)])\<lparr>extensible := False\<rparr>"
  "objs (heap demo_frozen) 7 = (plain_object (Some 2) [])\<lparr>extensible := False\<rparr>"
  "objs (heap demo_frozen) 8 = plain_object (Some 2) []"
  "objs (heap demo_frozen) 9 = getter_obj 1 (VRef 3)"
  "objs (heap demo_frozen) 10 = setter_obj 1 2 (KStr ''x'')"
  by (simp_all add: demo_frozen_def demo_queued_def run_defs demo_defs getter_obj_def setter_obj_def)

lemma freezeAndTraverse_InrD:
  assumes "freezeAndTraverse c ob st = Inr st'"
  shows "\<exists>st1 st2.
           run_hook c ob st = Inr st1 \<and>
           freezeWithOverride ob st1 = Inr st2 \<and>
           frozen_obj (objs (heap st2) ob) \<and>
           for_each (traverse_one (path_of st2 ob)) (getOwnPropertyDescriptors (heap st2) ob)
             (record_prototype (getPrototypeOf (heap st2) ob) (path_of st2 ob) st2) = Inr st' \<and>
           heap st' = heap st2"
proof (cases c ob st rule: freezeAndTraverse_cases)
  case (hook_throws x)
  then show ?thesis using assms by simp
next
  case (freeze_throws st1 x)
  then show ?thesis using assms by simp
next
  case (traversed st1 st2)
  let ?st3 = "record_prototype (getPrototypeOf (heap st2) ob) (path_of st2 ob) st2"
  have t: "for_each (traverse_one (path_of st2 ob)) (getOwnPropertyDescriptors (heap st2) ob) ?st3 = Inr st'"
    using traversed(3) assms by simp
  have "heap st' = heap ?st3"
    using for_each_traverse_heap [of "path_of st2 ob" "getOwnPropertyDescriptors (heap st2) ob" ?st3] t
    by simp
  then have "heap st' = heap st2" by (simp add: record_prototype_heap)
  then show ?thesis using traversed(1,2) t freezeWithOverride_frozen [OF traversed(2)] by blast
qed

lemma frozen_getter_obj: "frozen_obj (getter_obj fp v)"
  by (simp add: getter_obj_def frozen_obj_def)

lemma heap_step_frozen_props:
  "heap_step h h' \<Longrightarrow> r < next_ref h \<Longrightarrow> frozen_obj (objs h r) \<Longrightarrow>
     props (objs h' r) = props (objs h r)"
  by (simp add: heap_step_def)

lemma traversing_getter_covers:
  assumes "hook_ok c" and "heap_step h (heap st2)" and "g < next_ref h"
    and "objs h g = getter_obj fp (VRef r)" and "freezeAndTraverse c g st2 = Inr st3"
  shows "covered st3 r"
proof -
  obtain st2a st2b where hk: "run_hook c g st2 = Inr st2a"
    and fw: "freezeWithOverride g st2a = Inr st2b"
    and tr: "for_each (traverse_one (path_of st2b g)) (getOwnPropertyDescriptors (heap st2b) g)
             (record_prototype (getPrototypeOf (heap st2b) g) (path_of st2b g) st2b) = Inr st3"
    using freezeAndTraverse_InrD [OF assms(5)] by blast
  have "heap_step (heap st2) (heap st2a)"
    using run_hook_evolves [OF assms(1), of st2 g] hk by (simp add: evolves_def)
  moreover have "heap_step (heap st2a) (heap st2b)"
    using freezeWithOverride_evolves [of st2a g] fw by (simp add: evolves_def)
  ultimately have "heap_step h (heap st2b)" using assms(2) heap_step_trans by blast
  then have "props (objs (heap st2b) g) = props (getter_obj fp (VRef r))"
    using heap_step_frozen_props [of h "heap st2b" g] assms(3,4) frozen_getter_obj by simp
  then have "(KStr ''value'', DataDesc (VRef r) False True False)
      \<in> set (getOwnPropertyDescriptors (heap st2b) g)"
    by (simp add: getOwnPropertyDescriptors_def getter_obj_def)
  then show ?thesis using for_each_traverse_covers [OF tr] by fastforce
qed

lemma demo_rewrite:
  "override_one 2 (KStr ''x'', DataDesc (VRef 3) True True True) demo_queued = Inr demo_rewritten"
  unfolding demo_rewritten_def by (rule Inr_projr) (simp add: demo_queued_def run_defs demo_defs)

lemma demo_queued_next: "next_ref (heap demo_queued) = 9"
  by (simp add: demo_queued_def run_defs demo_defs)

lemma demo_traverse_getter:
  "freezeAndTraverse no_hook 9 demo_rewritten = Inr (projr (freezeAndTraverse no_hook 9 demo_rewritten))"
  by (rule Inr_projr) (simp add: demo_rewritten_def demo_queued_def run_defs demo_defs)

subsection \<open>Induction over the loop\<close>

text \<open>
  The induction that follows \<open>forEach\<close>: it ends, the callback throws, or the callback
  returns and the loop goes on from the next position.
\<close>

lemma dequeue_from_induct [consumes 1, case_names finished throws step]:
  assumes "dequeue_from c i st = Some r"
    and "\<And>i st. \<not> i < length (toFreeze st) \<Longrightarrow> P i st (Inr st)"
    and "\<And>i st x. i < length (toFreeze st) \<Longrightarrow>
           freezeAndTraverse c (toFreeze st ! i) st = Inl x \<Longrightarrow> P i st (Inl x)"
    and "\<And>i st st1 r. i < length (toFreeze st) \<Longrightarrow>
           freezeAndTraverse c (toFreeze st ! i) st = Inr st1 \<Longrightarrow>
           dequeue_from c (Suc i) st1 = Some r \<Longrightarrow> P (Suc i) st1 r \<Longrightarrow> P i st r"
  shows "P i st r"
proof -
  have "dequeue_from c' i st = Some r \<Longrightarrow> c' = c \<longrightarrow> dequeue_from c i st = Some r \<and> P i st r" for c'
  proof (induction rule: dequeue_from.raw_induct [rotated 1, consumes 1])
    case (1 deq c' i st r)
    show ?case
    proof
      assume c: "c' = c"
      show "dequeue_from c i st = Some r \<and> P i st r"
      proof (cases "i < length (toFreeze st)")
        case False
        then have "r = Inr st" using 1(2) by simp
        then show ?thesis using False assms(2) by (simp add: dequeue_from.simps [of c i st])
      next
        case True
        show ?thesis
        proof (cases "freezeAndTraverse c (toFreeze st ! i) st")
          case (Inl x)
          then have "r = Inl x" using 1(2) True c by simp
          then show ?thesis using True Inl assms(3) by (simp add: dequeue_from.simps [of c i st])
        next
          case (Inr st1)
          then have "deq c' (Suc i) st1 = Some r" using 1(2) True c by simp
          then have ih: "dequeue_from c (Suc i) st1 = Some r \<and> P (Suc i) st1 r"
            using 1(1) c by blast
          then have "P i st r" using assms(4) [OF True Inr] by blast
          then show ?thesis using True Inr ih by (simp add: dequeue_from.simps [of c i st])
        qed
      qed
    qed
  qed
  then show ?thesis using assms(1) by blast
qed

subsection \<open>The invariant of a call\<close>

lemma wf_heap_iff:
  "wf_heap h = (function_prototype h < next_ref h \<and> (\<forall>r<next_ref h. obj_ok (next_ref h) (objs h r)))"
  by (auto simp: wf_heap_def list_all_iff)

lemma val_ok_mono: "val_ok n v \<Longrightarrow> n \<le> m \<Longrightarrow> val_ok m v"
  by (cases v) auto

lemma desc_ok_mono: "desc_ok n d \<Longrightarrow> n \<le> m \<Longrightarrow> desc_ok m d"
  by (cases d) (auto intro: val_ok_mono)

lemma obj_ok_mono: "obj_ok n ob \<Longrightarrow> n \<le> m \<Longrightarrow> obj_ok m ob"
  by (auto simp: obj_ok_def list_all_iff split: option.splits intro: desc_ok_mono)

lemma wf_heap_set_obj:
  "wf_heap h \<Longrightarrow> (r < next_ref h \<Longrightarrow> obj_ok (next_ref h) ob) \<Longrightarrow> wf_heap (set_obj h r ob)"
  by (simp add: wf_heap_iff set_obj_def)

lemma fst_comp_frozen: "fst \<circ> (\<lambda>(k, d). (k, freeze_desc d)) = fst"
  by (auto simp: fun_eq_iff)

lemma desc_ok_freeze_desc: "desc_ok n (freeze_desc d) = desc_ok n d"
  by (cases d) auto

lemma ok_frozen_props:
  "list_all (\<lambda>kd. desc_ok n (snd kd)) (map (\<lambda>(k, d). (k, freeze_desc d)) ps) =
   list_all (\<lambda>kd. desc_ok n (snd kd)) ps"
  by (induction ps) (auto simp: desc_ok_freeze_desc)

lemma wf_heap_freeze: "wf_heap h \<Longrightarrow> wf_heap (freeze h r)"
  unfolding freeze_def
  by (rule wf_heap_set_obj)
    (auto simp: wf_heap_iff obj_ok_def fst_comp_frozen ok_frozen_props)

lemma fst_replace_prop: "map fst (replace_prop k d ps) = map fst ps"
  by (induction ps) auto

lemma ok_replace_prop:
  "list_all P ps \<Longrightarrow> P (k, d) \<Longrightarrow> list_all P (replace_prop k d ps)"
  by (induction ps) auto

lemma map_of_None_fst: "map_of ps k = None \<Longrightarrow> k \<notin> set (map fst ps)"
  by (simp add: map_of_eq_None_iff)

lemma wf_heap_defineProperty:
  assumes "wf_heap h" and "desc_ok (next_ref h) d" and "defineProperty h t k d = Inr h'"
  shows "wf_heap h'"
proof (cases t)
  case (VRef r)
  have h': "h' = set_obj h r ((objs h r)\<lparr>props := props (objs h r) @ [(k, d)]\<rparr>) \<and>
            map_of (props (objs h r)) k = None \<or>
            h' = set_obj h r ((objs h r)\<lparr>props := replace_prop k d (props (objs h r))\<rparr>)"
    using assms(3) VRef by (auto simp: defineProperty_def split: option.splits if_splits)
  then show ?thesis
  proof
    assume a: "h' = set_obj h r ((objs h r)\<lparr>props := props (objs h r) @ [(k, d)]\<rparr>) \<and>
            map_of (props (objs h r)) k = None"
    have "obj_ok (next_ref h) ((objs h r)\<lparr>props := props (objs h r) @ [(k, d)]\<rparr>)"
      if "r < next_ref h"
      using that assms(1,2) a map_of_None_fst [of "props (objs h r)" k]
      by (auto simp: wf_heap_iff obj_ok_def)
    then show ?thesis using a wf_heap_set_obj [OF assms(1)] by simp
  next
    assume a: "h' = set_obj h r ((objs h r)\<lparr>props := replace_prop k d (props (objs h r))\<rparr>)"
    have "obj_ok (next_ref h) ((objs h r)\<lparr>props := replace_prop k d (props (objs h r))\<rparr>)"
      if "r < next_ref h"
      using that assms(1,2)
      by (auto simp: wf_heap_iff obj_ok_def fst_replace_prop intro: ok_replace_prop)
    then show ?thesis using a wf_heap_set_obj [OF assms(1)] by simp
  qed
qed (use assms(3) in \<open>auto simp: defineProperty_def\<close>)

lemma wf_heap_install_pair:
  assumes "wf_heap h" and "val_ok (next_ref h) v"
  shows "wf_heap (install_pair h ob name v)"
proof -
  let ?n = "Suc (Suc (next_ref h))"
  have g: "obj_ok ?n (getter_obj (function_prototype h) v)"
    using assms by (auto simp: obj_ok_def getter_obj_def wf_heap_iff intro: val_ok_mono)
  have s: "obj_ok ?n (setter_obj (function_prototype h) ob name)"
    using assms by (auto simp: obj_ok_def setter_obj_def wf_heap_iff)
  have o: "obj_ok ?n (objs h r)" if "r < next_ref h" for r
    using assms(1) that obj_ok_mono [of "next_ref h" "objs h r" ?n] by (simp add: wf_heap_iff)
  show ?thesis
    unfolding wf_heap_iff
  proof (intro conjI allI impI)
    show "function_prototype (install_pair h ob name v) < next_ref (install_pair h ob name v)"
      using assms(1) by (simp add: install_pair_def wf_heap_iff)
  next
    fix r assume "r < next_ref (install_pair h ob name v)"
    then have "r < next_ref h \<or> r = next_ref h \<or> r = Suc (next_ref h)"
      by (auto simp: install_pair_next)
    then show "obj_ok (next_ref (install_pair h ob name v)) (objs (install_pair h ob name v) r)"
      using g s o by (auto simp: install_pair_objs install_pair_next)
  qed
qed

lemma invI:
  "wf_heap (heap st) \<Longrightarrow> (\<forall>r\<in>set (toFreeze st). r < next_ref (heap st)) \<Longrightarrow>
     distinct (toFreeze st) \<Longrightarrow> inv st"
  by (simp add: inv_def list_all_iff)

lemma invD:
  assumes "inv st"
  shows "wf_heap (heap st)" and "\<And>r. r \<in> set (toFreeze st) \<Longrightarrow> r < next_ref (heap st)"
    and "distinct (toFreeze st)"
  using assms by (auto simp: inv_def list_all_iff)

lemma set_set_add: "set (set_add xs x) = insert x (set xs)"
  by (auto simp: set_add_def)

lemma distinct_set_add: "distinct xs \<Longrightarrow> distinct (set_add xs x)"
  by (simp add: set_add_def)

lemma enqueue_inv:
  assumes "inv st" and "val_ok (next_ref (heap st)) v"
  shows "inv (res_state (enqueue v p st))"
  using assms
  by (cases v) (auto simp: enqueue_def inv_def list_all_iff split: typeof_tag.splits)

lemma override_data_inv:
  assumes "inv st" and "val_ok (next_ref (heap st)) v"
  shows "inv (res_state (override_data ob name v e st))"
proof -
  let ?n = "next_ref (heap st)"
  let ?h5 = "install_pair (heap st) ob name v"
  let ?d = "AccessorDesc (VRef ?n) (VRef (Suc ?n)) e False"
  let ?tf = "set_add (set_add (toFreeze st) ?n) (Suc ?n)"
  note i = invD [OF assms(1)]
  have w5: "wf_heap ?h5" using wf_heap_install_pair [OF i(1) assms(2)] .
  have dok: "desc_ok (next_ref ?h5) ?d" by (simp add: install_pair_next)
  have tf: "\<forall>r\<in>set ?tf. r < Suc (Suc ?n)" using i(2) by (auto simp: set_set_add less_Suc_eq)
  have dt: "distinct ?tf" using i(3) by (simp add: distinct_set_add)
  show ?thesis
  proof (cases "defineProperty ?h5 (VRef ob) name ?d")
    case (Inl err)
    then have "res_state (override_data ob name v e st) = st\<lparr>heap := ?h5, toFreeze := ?tf\<rparr>"
      by (simp add: override_data_alt)
    then show ?thesis using w5 tf dt by (auto intro!: invI simp: install_pair_next)
  next
    case (Inr h6)
    then have r: "res_state (override_data ob name v e st) = st\<lparr>heap := h6, toFreeze := ?tf\<rparr>"
      by (simp add: override_data_alt)
    have "wf_heap h6" using wf_heap_defineProperty [OF w5 dok Inr] .
    moreover have "next_ref h6 = Suc (Suc ?n)"
      using defineProperty_effect(8) [OF Inr] by (simp add: install_pair_next)
    ultimately show ?thesis using r tf dt by (auto intro!: invI)
  qed
qed

lemma override_accessor_inv:
  assumes "inv st" and "val_ok (next_ref (heap st)) g" and "val_ok (next_ref (heap st)) s"
  shows "inv (res_state (override_accessor ob name g s e st))"
proof (cases "defineProperty (heap st) (VRef ob) name (AccessorDesc g s e False)")
  case (Inl err)
  then show ?thesis using assms(1) by (simp add: override_accessor_def)
next
  case (Inr h1)
  have "wf_heap h1"
    using wf_heap_defineProperty [OF invD(1) [OF assms(1)] _ Inr] assms(2,3) by simp
  moreover have "next_ref h1 = next_ref (heap st)" using defineProperty_effect(8) [OF Inr] .
  ultimately show ?thesis using Inr invD(2,3) [OF assms(1)]
    by (auto intro!: invI simp: override_accessor_def)
qed

lemma override_one_inv:
  assumes "inv st" and "desc_ok (next_ref (heap st)) (snd nd)"
  shows "inv (res_state (override_one ob nd st))"
proof (cases nd)
  case (Pair name d)
  show ?thesis
  proof (cases d)
    case (DataDesc v w e c)
    then show ?thesis using Pair assms override_data_inv by (simp add: override_one_def)
  next
    case (AccessorDesc g s e c)
    then show ?thesis using Pair assms override_accessor_inv by (simp add: override_one_def)
  qed
qed

lemma override_one_next_res:
  "next_ref (heap st) \<le> next_ref (heap (res_state (override_one ob nd st)))"
  using override_one_evolves [of st ob nd] by (simp add: evolves_def heap_step_def)

lemma for_each_override_inv:
  assumes "inv st" and "\<forall>nd\<in>set ds. desc_ok (next_ref (heap st)) (snd nd)"
  shows "inv (res_state (for_each (override_one ob) ds st))"
proof -
  let ?P = "\<lambda>s. inv s \<and> next_ref (heap st) \<le> next_ref (heap s)"
  have "?P (res_state (for_each (override_one ob) ds st))"
  proof (rule for_each_preserves [of ?P])
    show "?P st" using assms(1) by simp
  next
    fix x s assume x: "x \<in> set ds" and s: "?P s"
    then have "desc_ok (next_ref (heap s)) (snd x)" using assms(2) desc_ok_mono by blast
    then show "?P (res_state (override_one ob x s))"
      using s override_one_inv override_one_next_res [of s ob x] by auto
  qed
  then show ?thesis by simp
qed

lemma wf_heap_descs:
  "wf_heap h \<Longrightarrow> r < next_ref h \<Longrightarrow> nd \<in> set (props (objs h r)) \<Longrightarrow> desc_ok (next_ref h) (snd nd)"
  by (auto simp: wf_heap_iff obj_ok_def list_all_iff)

lemma freezeWithOverride_inv:
  assumes "inv st" and "ob < next_ref (heap st)"
  shows "inv (res_state (freezeWithOverride ob st))"
proof -
  let ?r = "for_each (override_one ob) (getOwnPropertyDescriptors (heap st) ob) st"
  have a: "inv (res_state ?r)"
    using for_each_override_inv [OF assms(1)] wf_heap_descs [OF invD(1) [OF assms(1)] assms(2)]
    by (simp add: getOwnPropertyDescriptors_def)
  show ?thesis
  proof (cases ?r)
    case (Inl x)
    then show ?thesis using a by (simp add: freezeWithOverride_def)
  next
    case (Inr st1)
    then have "inv st1" using a by simp
    then have "inv (st1\<lparr>heap := freeze (heap st1) ob\<rparr>)"
      using wf_heap_freeze by (auto simp: inv_def freeze_def set_obj_def)
    then show ?thesis using Inr by (simp add: freezeWithOverride_def)
  qed
qed

lemma hook_passive_ok: "hook_passive c \<Longrightarrow> hook_ok c"
  by (auto simp: hook_passive_def hook_ok_def split: option.splits)

lemma run_hook_inv:
  assumes "inv st" and "hook_ok c"
  shows "inv (res_state (run_hook c ob st))"
proof (cases "naivePrepareObject c")
  case None
  then show ?thesis using assms by (simp add: run_hook_def)
next
  case (Some f)
  let ?h = "snd (f ob (heap st))"
  have w: "wf_heap ?h" and n: "next_ref (heap st) \<le> next_ref ?h"
    using assms Some by (auto simp: hook_ok_def inv_def heap_step_def)
  have "\<forall>r\<in>set (toFreeze st). r < next_ref ?h"
    using invD(2) [OF assms(1)] n by fastforce
  then have "inv (st\<lparr>heap := ?h\<rparr>)"
    using w invD(3) [OF assms(1)] by (auto intro!: invI)
  then show ?thesis using Some by (auto simp: run_hook_def split: prod.splits option.splits)
qed

lemma traverse_one_inv:
  assumes "inv st" and "desc_ok (next_ref (heap st)) (snd nd)"
  shows "inv (res_state (traverse_one path nd st))"
proof (cases nd)
  case (Pair name d)
  show ?thesis
  proof (cases d)
    case (DataDesc v w e c)
    then show ?thesis using Pair assms enqueue_inv by (simp add: traverse_one_def Let_def)
  next
    case (AccessorDesc g s e c)
    let ?pn = "path @ ''.'' @ String name"
    have g: "val_ok (next_ref (heap st)) g" and s: "val_ok (next_ref (heap st)) s"
      using assms(2) Pair AccessorDesc by simp_all
    show ?thesis
    proof (cases "enqueue g (Some (?pn @ ''(get)'')) st")
      case (Inl x)
      then show ?thesis
        using enqueue_inv [OF assms(1) g, of "Some (?pn @ ''(get)'')"] Pair AccessorDesc
        by (simp add: traverse_one_def Let_def)
    next
      case (Inr st1)
      then have 1: "inv st1" and "heap st1 = heap st"
        using enqueue_inv [OF assms(1) g, of "Some (?pn @ ''(get)'')"]
          enqueue_heap [of g "Some (?pn @ ''(get)'')" st] by simp_all
      then have "inv (res_state (enqueue s (Some (?pn @ ''(set)'')) st1))"
        using enqueue_inv [of st1 s] s by simp
      then show ?thesis using Inr Pair AccessorDesc by (simp add: traverse_one_def Let_def)
    qed
  qed
qed

lemma for_each_traverse_inv:
  assumes "inv st" and "\<forall>nd\<in>set ds. desc_ok (next_ref (heap st)) (snd nd)"
  shows "inv (res_state (for_each (traverse_one path) ds st))"
proof -
  let ?P = "\<lambda>s. inv s \<and> heap s = heap st"
  have "?P (res_state (for_each (traverse_one path) ds st))"
  proof (rule for_each_preserves [of ?P])
    show "?P st" using assms(1) by simp
  next
    fix x s assume x: "x \<in> set ds" and s: "?P s"
    then show "?P (res_state (traverse_one path x s))"
      using traverse_one_inv [of s x path] traverse_one_heap [of path x s] assms(2) by simp
  qed
  then show ?thesis by simp
qed

lemma record_prototype_inv: "inv st \<Longrightarrow> inv (record_prototype pr path st)"
  by (simp add: record_prototype_def inv_def split: option.splits)

lemma freezeAndTraverse_inv:
  assumes "inv st" and "hook_ok c" and "ob < next_ref (heap st)"
  shows "inv (res_state (freezeAndTraverse c ob st))"
proof (cases c ob st rule: freezeAndTraverse_cases)
  case (hook_throws x)
  then show ?thesis using run_hook_inv [OF assms(1,2), of ob] by simp
next
  case (freeze_throws st1 x)
  have 1: "inv st1" using run_hook_inv [OF assms(1,2), of ob] freeze_throws by simp
  have n1: "ob < next_ref (heap st1)"
    using run_hook_evolves [OF assms(2), of st ob] freeze_throws assms(3)
    by (simp add: evolves_def heap_step_def)
  show ?thesis using freezeWithOverride_inv [OF 1 n1] freeze_throws by simp
next
  case (traversed st1 st2)
  have 1: "inv st1" using run_hook_inv [OF assms(1,2), of ob] traversed by simp
  have n1: "ob < next_ref (heap st1)"
    using run_hook_evolves [OF assms(2), of st ob] traversed assms(3)
    by (simp add: evolves_def heap_step_def)
  have 2: "inv st2" using freezeWithOverride_inv [OF 1 n1] traversed by simp
  have n2: "ob < next_ref (heap st2)"
    using freezeWithOverride_evolves [of st1 ob] traversed n1 by (simp add: evolves_def heap_step_def)
  let ?st3 = "record_prototype (getPrototypeOf (heap st2) ob) (path_of st2 ob) st2"
  have 3: "inv ?st3" using record_prototype_inv [OF 2] .
  have "\<forall>nd\<in>set (getOwnPropertyDescriptors (heap st2) ob). desc_ok (next_ref (heap ?st3)) (snd nd)"
    using wf_heap_descs [OF invD(1) [OF 2] n2]
    by (simp add: getOwnPropertyDescriptors_def record_prototype_heap)
  then show ?thesis unfolding traversed(3) using for_each_traverse_inv [OF 3] by blast
qed

lemma dequeue_from_inv:
  assumes "dequeue_from c i st = Some r" and "hook_ok c" and "inv st"
  shows "inv (res_state r)"
  using assms(1,3)
proof (induction rule: dequeue_from_induct)
  case (finished i st)
  then show ?case by simp
next
  case (throws i st x)
  then have "toFreeze st ! i < next_ref (heap st)" using invD(2) by simp
  then show ?case using freezeAndTraverse_inv [OF throws(3) assms(2)] throws(2) by fastforce
next
  case (step i st st1 r)
  then have "toFreeze st ! i < next_ref (heap st)" using invD(2) by simp
  then have "inv st1" using freezeAndTraverse_inv [OF step(5) assms(2)] step(2) by fastforce
  then show ?case using step(4) by simp
qed

subsection \<open>The measure decreases\<close>

lemma settled_getter: "filter cfg_data (props (getter_obj fp v)) = []"
  by (simp add: getter_obj_def cfg_data_def)

lemma settled_setter: "filter cfg_data (props (setter_obj fp ob name)) = []"
  by (simp add: setter_obj_def cfg_data_def)

lemma settled_frozen: "filter cfg_data (map (\<lambda>(k, d). (k, freeze_desc d)) ps) = []"
proof (induction ps)
  case (Cons a ps)
  then show ?case by (cases a; cases "snd a") (auto simp: cfg_data_def)
qed simp

lemma defineProperty_res_objs:
  "r \<noteq> ob \<Longrightarrow> objs (case defineProperty h (VRef ob) k d of Inl e \<Rightarrow> h | Inr h' \<Rightarrow> h') r = objs h r"
  using defineProperty_effect(3) [of h ob k d _ r]
  by (cases "defineProperty h (VRef ob) k d") auto

lemma defineProperty_res_next:
  "next_ref (case defineProperty h (VRef ob) k d of Inl e \<Rightarrow> h | Inr h' \<Rightarrow> h') = next_ref h"
  using defineProperty_effect(8) [of h ob k d]
  by (cases "defineProperty h (VRef ob) k d") auto

lemma override_data_res_heap:
  "heap (res_state (override_data ob name v e st)) =
     (case defineProperty (install_pair (heap st) ob name v) (VRef ob) name
        (AccessorDesc (VRef (next_ref (heap st))) (VRef (Suc (next_ref (heap st)))) e False) of
        Inl err \<Rightarrow> install_pair (heap st) ob name v | Inr h6 \<Rightarrow> h6)"
  by (simp add: override_data_alt split: sum.splits)

lemma override_accessor_res_heap:
  "heap (res_state (override_accessor ob name g s e st)) =
     (case defineProperty (heap st) (VRef ob) name (AccessorDesc g s e False) of
        Inl err \<Rightarrow> heap st | Inr h1 \<Rightarrow> h1)"
  by (simp add: override_accessor_def split: sum.splits)

lemma override_one_res_next:
  "next_ref (heap (res_state (override_one ob nd st))) =
     next_ref (heap st) + (if cfg_data nd then 2 else 0)"
proof (cases nd)
  case (Pair name d)
  show ?thesis
  proof (cases d)
    case (DataDesc v w e c)
    then show ?thesis using Pair
      by (simp add: override_one_def cfg_data_def override_data_res_heap defineProperty_res_next
          install_pair_next)
  next
    case (AccessorDesc g s e c)
    then show ?thesis using Pair
      by (simp add: override_one_def cfg_data_def override_accessor_res_heap defineProperty_res_next)
  qed
qed

lemma override_one_res_objs:
  assumes "r \<noteq> ob"
  shows "objs (heap (res_state (override_one ob nd st))) r =
     (if cfg_data nd \<and> r = next_ref (heap st)
      then getter_obj (function_prototype (heap st)) (dvalue (snd nd))
      else if cfg_data nd \<and> r = Suc (next_ref (heap st))
      then setter_obj (function_prototype (heap st)) ob (fst nd)
      else objs (heap st) r)"
proof (cases nd)
  case (Pair name d)
  show ?thesis
  proof (cases d)
    case (DataDesc v w e c)
    then show ?thesis using Pair assms
      by (simp add: override_one_def cfg_data_def override_data_res_heap defineProperty_res_objs
          install_pair_objs)
  next
    case (AccessorDesc g s e c)
    then show ?thesis using Pair assms
      by (simp add: override_one_def cfg_data_def override_accessor_res_heap defineProperty_res_objs)
  qed
qed

lemma for_each_override_next:
  "for_each (override_one ob) ds st = Inr st' \<Longrightarrow>
     next_ref (heap st') = next_ref (heap st) + 2 * length (filter cfg_data ds)"
proof (induction ds arbitrary: st)
  case Nil
  then show ?case by simp
next
  case (Cons x xs)
  obtain st1 where 1: "override_one ob x st = Inr st1"
    and 2: "for_each (override_one ob) xs st1 = Inr st'"
    using for_each_Inr_Cons [OF Cons.prems] by blast
  have "next_ref (heap st1) = next_ref (heap st) + (if cfg_data x then 2 else 0)"
    using override_one_res_next [of ob x st] 1 by simp
  then show ?case using Cons.IH [OF 2] by simp
qed

lemma for_each_override_objs:
  assumes "ob < next_ref (heap st)"
  shows "(\<forall>r<next_ref (heap st). r \<noteq> ob \<longrightarrow>
            objs (heap (res_state (for_each (override_one ob) ds st))) r = objs (heap st) r) \<and>
         (\<forall>r. next_ref (heap st) \<le> r \<and> r < next_ref (heap (res_state (for_each (override_one ob) ds st))) \<longrightarrow>
            filter cfg_data (props (objs (heap (res_state (for_each (override_one ob) ds st))) r)) = [])"
proof -
  let ?n = "next_ref (heap st)"
  let ?Q = "\<lambda>s::state. ?n \<le> next_ref (heap s) \<and>
      (\<forall>r<?n. r \<noteq> ob \<longrightarrow> objs (heap s) r = objs (heap st) r) \<and>
      (\<forall>r. ?n \<le> r \<and> r < next_ref (heap s) \<longrightarrow> filter cfg_data (props (objs (heap s) r)) = [])"
  have "?Q (res_state (for_each (override_one ob) ds st))"
  proof (rule for_each_preserves [of ?Q])
    show "?Q st" by auto
  next
    fix x s assume s: "?Q s"
    let ?s1 = "res_state (override_one ob x s)"
    have n1: "next_ref (heap ?s1) = next_ref (heap s) + (if cfg_data x then 2 else 0)"
      by (rule override_one_res_next)
    have a: "?n \<le> next_ref (heap ?s1)" using s n1 by simp
    have b: "objs (heap ?s1) r = objs (heap st) r" if "r < ?n" "r \<noteq> ob" for r
      using that s override_one_res_objs [of r ob x s] by auto
    have c: "filter cfg_data (props (objs (heap ?s1) r)) = []"
      if "?n \<le> r" "r < next_ref (heap ?s1)" for r
    proof -
      have ne: "r \<noteq> ob" using that(1) assms by simp
      show ?thesis
      proof (cases "r < next_ref (heap s)")
        case True
        then show ?thesis using s that(1) override_one_res_objs [OF ne, of x s] by auto
      next
        case False
        then have "cfg_data x \<and> (r = next_ref (heap s) \<or> r = Suc (next_ref (heap s)))"
          using that(2) n1 by (auto split: if_splits)
        then show ?thesis
          using override_one_res_objs [OF ne, of x s] by (auto simp: settled_getter settled_setter)
      qed
    qed
    show "?Q ?s1" using a b c by blast
  qed
  then show ?thesis by blast
qed

lemma pending_split:
  assumes "n \<le> next_ref h"
    and "\<forall>r. n \<le> r \<and> r < next_ref h \<longrightarrow> filter cfg_data (props (objs h r)) = []"
  shows "pending h = (\<Sum>r<n. length (filter cfg_data (props (objs h r))))"
proof -
  let ?f = "\<lambda>r. length (filter cfg_data (props (objs h r)))"
  have "{..<next_ref h} = {..<n} \<union> {n..<next_ref h}" using assms(1) by auto
  then have "pending h = sum ?f {..<n} + sum ?f {n..<next_ref h}"
    unfolding pending_def by (metis finite_lessThan finite_atLeastLessThan ivl_disj_int_one(2) sum.union_disjoint)
  moreover have "sum ?f {n..<next_ref h} = 0" using assms(2) by simp
  ultimately show ?thesis by simp
qed

lemma freezeWithOverride_potential:
  assumes "freezeWithOverride ob st = Inr st'" and "ob < next_ref (heap st)"
  shows "potential (heap st') = potential (heap st)"
proof -
  let ?ds = "props (objs (heap st) ob)"
  let ?n = "next_ref (heap st)"
  let ?f = "\<lambda>r. length (filter cfg_data (props (objs (heap st) r)))"
  let ?f' = "\<lambda>r. length (filter cfg_data (props (objs (heap st') r)))"
  obtain st1 where 1: "for_each (override_one ob) ?ds st = Inr st1"
    and 2: "st' = st1\<lparr>heap := freeze (heap st1) ob\<rparr>"
    using assms(1) by (auto simp: freezeWithOverride_def getOwnPropertyDescriptors_def split: sum.splits)
  have n1: "next_ref (heap st1) = ?n + 2 * ?f ob" using for_each_override_next [OF 1] .
  have o1: "\<forall>r<?n. r \<noteq> ob \<longrightarrow> objs (heap st1) r = objs (heap st) r"
    and q1: "\<forall>r. ?n \<le> r \<and> r < next_ref (heap st1) \<longrightarrow> filter cfg_data (props (objs (heap st1) r)) = []"
    using for_each_override_objs [OF assms(2), of ?ds] 1 by simp_all
  have n': "next_ref (heap st') = ?n + 2 * ?f ob" using 2 n1 by (simp add: freeze_def set_obj_def)
  have ob': "?f' ob = 0" using 2 by (simp add: freeze_def set_obj_def settled_frozen)
  have other: "?f' r = ?f r" if "r < ?n" "r \<noteq> ob" for r
    using that o1 2 by (simp add: freeze_def set_obj_def)
  have new: "\<forall>r. ?n \<le> r \<and> r < next_ref (heap st') \<longrightarrow> filter cfg_data (props (objs (heap st') r)) = []"
    using q1 2 assms(2) by (auto simp: freeze_def set_obj_def)
  have p': "pending (heap st') = sum ?f' {..<?n}"
    by (rule pending_split) (use n' new in auto)
  have "sum ?f' {..<?n} = ?f' ob + sum ?f' ({..<?n} - {ob})"
    using assms(2) by (simp add: sum.remove)
  moreover have "sum ?f {..<?n} = ?f ob + sum ?f ({..<?n} - {ob})"
    using assms(2) by (simp add: sum.remove)
  moreover have "sum ?f' ({..<?n} - {ob}) = sum ?f ({..<?n} - {ob})"
    by (rule sum.cong) (use other in auto)
  ultimately have "pending (heap st') + ?f ob = pending (heap st)"
    using p' ob' by (simp add: pending_def)
  then show ?thesis using n' by (simp add: potential_def)
qed

lemma run_hook_passive: "hook_passive c \<Longrightarrow> heap (res_state (run_hook c ob st)) = heap st"
  by (auto simp: run_hook_def hook_passive_def split: option.splits prod.splits)
     (metis snd_conv)+

lemma freezeAndTraverse_potential:
  assumes "freezeAndTraverse c ob st = Inr st'" and "hook_passive c" and "ob < next_ref (heap st)"
  shows "potential (heap st') = potential (heap st)"
proof -
  obtain st1 st2 where hk: "run_hook c ob st = Inr st1"
    and fw: "freezeWithOverride ob st1 = Inr st2" and h: "heap st' = heap st2"
    using freezeAndTraverse_InrD [OF assms(1)] by blast
  have "heap st1 = heap st" using run_hook_passive [OF assms(2), of ob st] hk by simp
  then show ?thesis using freezeWithOverride_potential [OF fw] assms(3) h by simp
qed

lemma length_toFreeze_bound:
  assumes "inv st"
  shows "length (toFreeze st) \<le> next_ref (heap st)"
proof -
  have "set (toFreeze st) \<subseteq> {..<next_ref (heap st)}" using invD(2) [OF assms] by auto
  then have "card (set (toFreeze st)) \<le> next_ref (heap st)"
    using card_mono [of "{..<next_ref (heap st)}" "set (toFreeze st)"] by simp
  then show ?thesis using invD(3) [OF assms] by (simp add: distinct_card)
qed

lemma dequeue_from_terminates:
  assumes "hook_passive c" and "inv st"
  shows "\<exists>r. dequeue_from c i st = Some r"
  using assms(2)
proof (induction "potential (heap st) - i" arbitrary: i st rule: less_induct)
  case less
  show ?case
  proof (cases "i < length (toFreeze st)")
    case False
    then show ?thesis by (simp add: dequeue_from.simps [of c i st])
  next
    case True
    let ?ob = "toFreeze st ! i"
    have ob: "?ob < next_ref (heap st)" using invD(2) [OF less.prems] True by simp
    show ?thesis
    proof (cases "freezeAndTraverse c ?ob st")
      case (Inl x)
      then show ?thesis using True by (simp add: dequeue_from.simps [of c i st])
    next
      case (Inr st1)
      have i1: "inv st1"
        using freezeAndTraverse_inv [OF less.prems hook_passive_ok [OF assms(1)] ob] Inr by simp
      have p: "potential (heap st1) = potential (heap st)"
        using freezeAndTraverse_potential [OF Inr assms(1) ob] .
      have "i < potential (heap st)"
        using True length_toFreeze_bound [OF less.prems] by (simp add: potential_def)
      then have "potential (heap st1) - Suc i < potential (heap st) - i" using p by simp
      then have "\<exists>r. dequeue_from c (Suc i) st1 = Some r" using less.hyps i1 by blast
      then show ?thesis using True Inr by (simp add: dequeue_from.simps [of c i st])
    qed
  qed
qed

lemma new_call_inv: "wf_heap h \<Longrightarrow> inv (new_call h fr)"
  by (simp add: inv_def new_call_def)

lemma enqueue_covered_ignored: "covered st r \<Longrightarrow> res_state (enqueue (VRef r) p st) = st"
  by (auto simp: enqueue_def covered_def split: typeof_tag.splits)

lemma walk_inv:
  assumes "walk c root h fr = Some r" and "wf_heap h" and "val_ok (next_ref h) root" and "hook_ok c"
  shows "inv (res_state r)"
proof -
  have e: "inv (res_state (enqueue root None (new_call h fr)))"
    using enqueue_inv [OF new_call_inv [OF assms(2), of fr], of root None] assms(3)
    by (simp add: new_call_def)
  show ?thesis
  proof (cases rule: walk_cases [where root=root and h=h and fr=fr and c=c])
    case (enqueue_throws x)
    then show ?thesis using e assms(1) by simp
  next
    case (diverges st0)
    then show ?thesis using assms(1) by simp
  next
    case (dequeue_throws st0 x)
    then show ?thesis using e assms(1) dequeue_from_inv [OF dequeue_throws(2) assms(4)] by simp
  next
    case (checked st0 st1)
    then show ?thesis
      using e assms(1) dequeue_from_inv [OF checked(2) assms(4)] checkPrototypes_state [of st1]
      by simp
  qed
qed

lemma wf_loop_heap: "wf_heap loop_heap"
  by (simp add: wf_heap_iff loop_heap_def obj_ok_def plain_object_def native_function_def
      less_Suc_eq numeral_3_eq_3)

lemma hook_passive_no_hook: "hook_passive no_hook"
  by (simp add: hook_passive_def no_hook_def)

lemmas loop_defs = no_hook_def loop_heap_def plain_object_def bare_object_def native_function_def

subsection \<open>Processed nodes stay done\<close>

lemma grows_prototypes: "grows st st' \<Longrightarrow> fst ` set (prototypes st) \<subseteq> fst ` set (prototypes st')"
  by (auto simp: grows_def dest!: set_mono_prefix)

lemma node_done_evolves:
  assumes "node_done st n" and "n < next_ref (heap st)" and "evolves st st'"
  shows "node_done st' n"
proof -
  have hs: "heap_step (heap st) (heap st')" and g: "grows st st'"
    using assms(3) by (simp_all add: evolves_def)
  have fr: "frozen_obj (objs (heap st) n)" using assms(1) by (simp add: node_done_def)
  have same: "proto (objs (heap st') n) = proto (objs (heap st) n)"
    "props (objs (heap st') n) = props (objs (heap st) n)"
    "extensible (objs (heap st') n) = extensible (objs (heap st) n)"
    using hs assms(2) fr by (simp_all add: heap_step_def)
  have "frozen_obj (objs (heap st') n)" using fr same frozen_obj_cong by metis
  then show ?thesis
    using assms(1) same covered_grows [OF g] grows_prototypes [OF g]
    by (auto simp: node_done_def)
qed

lemma record_prototype_registers:
  "p \<in> fst ` set (prototypes (record_prototype (Some p) path st))"
proof (cases "map_of (prototypes st) p")
  case None
  then show ?thesis by (simp add: record_prototype_def)
next
  case (Some a)
  then have "(p, a) \<in> set (prototypes st)" by (rule map_of_SomeD)
  then show ?thesis using Some by (force simp: record_prototype_def)
qed

lemma freezeAndTraverse_done:
  assumes "freezeAndTraverse c n st = Inr st'"
  shows "node_done st' n"
proof -
  obtain st1 st2 where fz: "frozen_obj (objs (heap st2) n)"
    and tr: "for_each (traverse_one (path_of st2 n)) (getOwnPropertyDescriptors (heap st2) n)
             (record_prototype (getPrototypeOf (heap st2) n) (path_of st2 n) st2) = Inr st'"
    and h: "heap st' = heap st2"
    using freezeAndTraverse_InrD [OF assms] by blast
  let ?st3 = "record_prototype (getPrototypeOf (heap st2) n) (path_of st2 n) st2"
  have g: "grows ?st3 st'"
    using for_each_traverse_grows [of ?st3 "path_of st2 n" "getOwnPropertyDescriptors (heap st2) n"] tr
    by simp
  have a: "\<forall>nd\<in>set (props (objs (heap st') n)). \<forall>r\<in>desc_refs (snd nd). covered st' r"
    using for_each_traverse_covers [OF tr] h by (auto simp: getOwnPropertyDescriptors_def)
  have b: "p \<in> fst ` set (prototypes st')" if "proto (objs (heap st') n) = Some p" for p
  proof -
    have "getPrototypeOf (heap st2) n = Some p" using that h by (simp add: getPrototypeOf_def)
    then have "p \<in> fst ` set (prototypes ?st3)" using record_prototype_registers by simp
    then show ?thesis using grows_prototypes [OF g] by blast
  qed
  show ?thesis using fz h a b by (simp add: node_done_def)
qed

lemma prefix_nth: "prefix xs ys \<Longrightarrow> j < length xs \<Longrightarrow> ys ! j = xs ! j"
  by (auto simp: prefix_def nth_append)

lemma dequeue_from_done:
  assumes "dequeue_from c i st = Some r" and "hook_ok c" and "inv st"
    and "\<forall>j<i. j < length (toFreeze st) \<longrightarrow> node_done st (toFreeze st ! j)"
    and "r = Inr st'"
  shows "\<forall>n\<in>set (toFreeze st'). node_done st' n"
  using assms(1,3,4,5)
proof (induction rule: dequeue_from_induct)
  case (finished i st)
  then show ?case by (auto simp: in_set_conv_nth)
next
  case (throws i st x)
  then show ?case by simp
next
  case (step i st st1 r)
  let ?n = "toFreeze st ! i"
  have n: "?n < next_ref (heap st)" using invD(2) [OF step(5)] step(1) by simp
  have i1: "inv st1" using freezeAndTraverse_inv [OF step(5) assms(2) n] step(2) by simp
  have ev: "evolves st st1" using freezeAndTraverse_evolves [OF assms(2), of st ?n] step(2) by simp
  then have pf: "prefix (toFreeze st) (toFreeze st1)" by (simp add: evolves_def grows_def)
  have "node_done st1 (toFreeze st1 ! j)" if j: "j < Suc i" "j < length (toFreeze st1)" for j
  proof (cases "j = i")
    case True
    then have "toFreeze st1 ! j = ?n" using prefix_nth [OF pf step(1)] by simp
    then show ?thesis using freezeAndTraverse_done [OF step(2)] by simp
  next
    case False
    then have ji: "j < i" using j(1) by simp
    then have jl: "j < length (toFreeze st)" using step(1) by simp
    have e: "toFreeze st1 ! j = toFreeze st ! j" using prefix_nth [OF pf jl] .
    have "node_done st (toFreeze st ! j)" using step(6) ji jl by simp
    moreover have "toFreeze st ! j < next_ref (heap st)" using invD(2) [OF step(5)] jl by simp
    ultimately show ?thesis using node_done_evolves ev e by simp
  qed
  then show ?case using step(4) [OF i1 _ step(7)] by blast
qed

lemma checkPrototypes_Inr_covered:
  assumes "checkPrototypes st = Inr st'"
  shows "\<forall>pp\<in>set (prototypes st). covered st (fst pp)"
proof -
  have "find (offending st) (prototypes st) = None"
    using assms by (auto simp: checkPrototypes_def check_each_find split: option.splits)
  then show ?thesis by (auto simp: find_None_iff offending_def covered_def)
qed

lemma harden_InrD:
  assumes "harden c root h fr = Some (Inr r, h', fr')"
  obtains st0 st1 where "enqueue root None (new_call h fr) = Inr st0"
    "dequeue_from c 0 st0 = Some (Inr st1)" "checkPrototypes st1 = Inr st1"
    "r = root" "h' = heap st1" "fr' = fr \<union> set (toFreeze st1)" "fringeSet st1 = fr"
proof -
  obtain st where w: "walk c root h fr = Some (Inr st)" and r: "r = root"
    and h': "h' = heap st" and fr': "fr' = fringeSet st \<union> set (toFreeze st)"
    using assms
    by (auto simp: harden_def commit_def split: option.splits sum.splits prod.splits)
  from w obtain st0 st1 where e: "enqueue root None (new_call h fr) = Inr st0"
    and d: "dequeue_from c 0 st0 = Some (Inr st1)" and c: "checkPrototypes st1 = Inr st"
    by (cases rule: walk_cases [where root=root and h=h and fr=fr and c=c]) auto
  have st: "st = st1" using checkPrototypes_state [of st1] c by simp
  have f: "fringeSet st = fr" using walk_fringe [OF w] by simp
  show ?thesis using that [OF e d] c st r h' fr' f by simp
qed

lemma wf_demo_heap: "wf_heap demo_heap"
  by (simp add: wf_heap_iff demo_defs obj_ok_def less_Suc_eq eval_nat_numeral)

lemma demo_hardened_links:
  "9 \<in> links (heap_after (harden no_hook (VRef 2) demo_heap {0, 1, 4})) 2"
  "3 \<in> links (heap_after (harden no_hook (VRef 2) demo_heap {0, 1, 4})) 9"
  by (simp_all add: links_def run_defs demo_defs)

lemma demo_third_call:
  "outcome (harden no_hook (VRef 2) demo_heap {0, 1, 3}) = Some (Inr (VRef 2))"
  "9 \<in> links (heap_after (harden no_hook (VRef 2) demo_heap {0, 1, 3})) 2"
  "3 \<in> links (heap_after (harden no_hook (VRef 2) demo_heap {0, 1, 3})) 9"
  "4 \<in> links (heap_after (harden no_hook (VRef 2) demo_heap {0, 1, 3})) 3"
  "\<not> frozen_obj (objs (heap_after (harden no_hook (VRef 2) demo_heap {0, 1, 3})) 4)"
  "4 \<notin> fringe_after (harden no_hook (VRef 2) demo_heap {0, 1, 3})"
  by (simp_all add: links_def frozen_obj_def run_defs demo_defs)

subsection \<open>Nodes without prototype\<close>

lemma enqueue_prototypes: "prototypes (res_state (enqueue v p st)) = prototypes st"
  by (simp add: enqueue_def split: val.splits typeof_tag.splits)

lemma traverse_one_prototypes: "prototypes (res_state (traverse_one path nd st)) = prototypes st"
proof (cases nd)
  case (Pair name d)
  show ?thesis
  proof (cases d)
    case (DataDesc v w e c)
    then show ?thesis using Pair enqueue_prototypes by (simp add: traverse_one_def Let_def)
  next
    case (AccessorDesc g s e c)
    let ?pn = "path @ ''.'' @ String name"
    show ?thesis
    proof (cases "enqueue g (Some (?pn @ ''(get)'')) st")
      case (Inl x)
      then show ?thesis
        using enqueue_prototypes [of g "Some (?pn @ ''(get)'')" st] Pair AccessorDesc
        by (simp add: traverse_one_def Let_def)
    next
      case (Inr st1)
      then show ?thesis
        using enqueue_prototypes [of g "Some (?pn @ ''(get)'')" st]
          enqueue_prototypes [of s "Some (?pn @ ''(set)'')" st1] Pair AccessorDesc
        by (simp add: traverse_one_def Let_def)
    qed
  qed
qed

lemma for_each_traverse_prototypes:
  "prototypes (res_state (for_each (traverse_one path) ds st)) = prototypes st"
  using for_each_preserves [of "\<lambda>s. prototypes s = prototypes st" st ds "traverse_one path"]
    traverse_one_prototypes by simp

lemma override_one_prototypes: "prototypes (res_state (override_one ob nd st)) = prototypes st"
  by (auto simp: override_one_def override_data_alt override_accessor_def
      split: prod.splits desc.splits sum.splits)

lemma freezeWithOverride_prototypes:
  "prototypes (res_state (freezeWithOverride ob st)) = prototypes st"
proof -
  let ?r = "for_each (override_one ob) (getOwnPropertyDescriptors (heap st) ob) st"
  have "prototypes (res_state ?r) = prototypes st"
    using for_each_preserves [of "\<lambda>s. prototypes s = prototypes st" st _ "override_one ob"]
      override_one_prototypes by simp
  then show ?thesis by (cases ?r) (auto simp: freezeWithOverride_def)
qed

lemma run_hook_prototypes: "prototypes (res_state (run_hook c ob st)) = prototypes st"
  by (auto simp: run_hook_def split: option.splits prod.splits)

lemma null_prototype_step:
  assumes "freezeAndTraverse c ob st = Inr st'" and "proto (objs (heap st') ob) = None"
  shows "prototypes st' = prototypes st"
proof -
  obtain st1 st2 where hk: "run_hook c ob st = Inr st1"
    and fw: "freezeWithOverride ob st1 = Inr st2"
    and tr: "for_each (traverse_one (path_of st2 ob)) (getOwnPropertyDescriptors (heap st2) ob)
             (record_prototype (getPrototypeOf (heap st2) ob) (path_of st2 ob) st2) = Inr st'"
    and h: "heap st' = heap st2"
    using freezeAndTraverse_InrD [OF assms(1)] by blast
  have "getPrototypeOf (heap st2) ob = None" using assms(2) h by (simp add: getPrototypeOf_def)
  then have "for_each (traverse_one (path_of st2 ob)) (getOwnPropertyDescriptors (heap st2) ob) st2 = Inr st'"
    using tr by (simp add: record_prototype_def)
  then have "prototypes st' = prototypes st2"
    using for_each_traverse_prototypes [of "path_of st2 ob" "getOwnPropertyDescriptors (heap st2) ob" st2]
    by simp
  moreover have "prototypes st2 = prototypes st1" using freezeWithOverride_prototypes [of ob st1] fw by simp
  moreover have "prototypes st1 = prototypes st" using run_hook_prototypes [of c ob st] hk by simp
  ultimately show ?thesis by simp
qed

lemma dequeue_from_no_prototypes:
  assumes "dequeue_from c i st = Some r" and "hook_ok c" and "inv st" and "prototypes st = []"
    and "r = Inr st'" and "\<forall>n\<in>set (toFreeze st'). proto (objs (heap st') n) = None"
  shows "prototypes st' = []"
  using assms(1,3,4,5,6)
proof (induction rule: dequeue_from_induct)
  case (finished i st)
  then show ?case by simp
next
  case (throws i st x)
  then show ?case by simp
next
  case (step i st st1 r)
  let ?n = "toFreeze st ! i"
  have n: "?n < next_ref (heap st)" using invD(2) [OF step(5)] step(1) by simp
  have i1: "inv st1" using freezeAndTraverse_inv [OF step(5) assms(2) n] step(2) by simp
  have ev: "evolves st st1" using freezeAndTraverse_evolves [OF assms(2), of st ?n] step(2) by simp
  have n1: "?n < next_ref (heap st1)" using ev n by (simp add: evolves_def heap_step_def)
  have fz: "frozen_obj (objs (heap st1) ?n)"
    using freezeAndTraverse_done [OF step(2)] by (simp add: node_done_def)
  have ev': "evolves st1 st'" using dequeue_from_evolves [OF step(3) assms(2)] step(7) by simp
  have "?n \<in> set (toFreeze st')"
    using ev ev' nth_mem [OF step(1)] by (auto simp: evolves_def grows_def dest!: set_mono_prefix)
  then have "proto (objs (heap st') ?n) = None" using step(8) by blast
  moreover have "proto (objs (heap st') ?n) = proto (objs (heap st1) ?n)"
    using ev' n1 fz by (simp add: evolves_def heap_step_def)
  ultimately have "prototypes st1 = prototypes st" using null_prototype_step [OF step(2)] by simp
  then show ?case using step(4) [OF i1 _ step(7,8)] step(6) by simp
qed

lemma demo_bare_enqueue: "enqueue (VRef 6) None (new_call demo_heap {}) = Inr demo_bare_queued"
  unfolding demo_bare_queued_def by (rule Inr_projr) (simp add: run_defs demo_defs)

lemma demo_bare_dequeue: "dequeue no_hook demo_bare_queued = Some (Inr demo_bare_walked)"
  unfolding demo_bare_walked_def
  by (rule Some_Inr_projr) (simp_all add: demo_bare_queued_def run_defs demo_defs)

lemma demo_bare_nodes:
  "toFreeze demo_bare_walked = [6]" "proto (objs (heap demo_bare_walked) 6) = None"
  by (simp_all add: demo_bare_walked_def demo_bare_queued_def run_defs demo_defs)

subsection \<open>A hook that respects the host\<close>

text \<open>
  The marking hook of the small realm is \<open>hook_ok\<close>: the hypothesis on hooks is one
  that code written against \<open>Object.defineProperty\<close> meets.
\<close>

lemma hook_ok_tagging: "hook_ok tagging"
proof -
  have "heap_step h (snd (tagging_hook ob h)) \<and> (wf_heap h \<longrightarrow> wf_heap (snd (tagging_hook ob h)))"
    for ob h
  proof (cases "defineProperty h (VRef ob) (KStr ''seen'') (DataDesc (VBool True) True True True)")
    case (Inl e)
    then show ?thesis by (simp add: tagging_hook_def)
  next
    case (Inr h1)
    then show ?thesis
      using heap_step_defineProperty [OF Inr] wf_heap_defineProperty [OF _ _ Inr]
      by (simp add: tagging_hook_def)
  qed
  then show ?thesis by (simp add: hook_ok_def tagging_def)
qed

subsection \<open>What the rewrite adds to the work set\<close>

lemma held_prop_refs: "held h ob k x \<Longrightarrow> x \<in> prop_refs h ob"
  by (force simp: held_def prop_refs_def split: option.splits dest!: map_of_SomeD)

lemma desc_refs_freeze_desc [simp]: "desc_refs (freeze_desc d) = desc_refs d"
  by (cases d) simp_all

lemma held_freeze: "held h ob k x \<Longrightarrow> held (freeze h r) ob k x"
  by (auto simp: held_def freeze_def set_obj_def map_of_frozen_props split: option.splits)

lemma held_install_pair: "held h ob k x \<Longrightarrow> ob < next_ref h \<Longrightarrow> held (install_pair h ob' name v) ob k x"
  by (simp add: held_def install_pair_objs)

lemma held_defineProperty:
  "defineProperty h (VRef ob) k' d = Inr h' \<Longrightarrow> k' \<noteq> k \<Longrightarrow> held h ob k x \<Longrightarrow> held h' ob k x"
  using defineProperty_effect(2) [of h ob k' d h' k] by (simp add: held_def)

lemma override_data_held:
  assumes "override_data ob name v e st = Inr st'"
  shows "held (heap st') ob name (next_ref (heap st))" "held (heap st') ob name (Suc (next_ref (heap st)))"
  using defineProperty_effect(1) [OF override_data_InrD(1) [OF assms]] by (simp_all add: held_def)

lemma override_one_keeps_held:
  assumes "override_one ob (k', d') st = Inr st'" and "k' \<noteq> k" and "ob < next_ref (heap st)"
    and "held (heap st) ob k x"
  shows "held (heap st') ob k x"
proof (cases "configurable d'")
  case False
  then show ?thesis using assms by (simp add: override_one_def)
next
  case True
  show ?thesis
  proof (cases d')
    case (DataDesc v' w e c)
    then have o: "override_data ob k' v' e st = Inr st'"
      using assms(1) True by (simp add: override_one_def)
    show ?thesis
      using held_defineProperty [OF override_data_InrD(1) [OF o] assms(2)]
        held_install_pair [OF assms(4) assms(3)] by blast
  next
    case (AccessorDesc g s e c)
    then have "defineProperty (heap st) (VRef ob) k' (AccessorDesc g s e False) = Inr (heap st')"
      using assms(1) True by (auto simp: override_one_def override_accessor_def split: sum.splits)
    then show ?thesis using held_defineProperty assms(2,4) by blast
  qed
qed

lemma for_each_override_keeps_held:
  assumes "for_each (override_one ob) ds st = Inr st'" and "k \<notin> fst ` set ds"
    and "ob < next_ref (heap st)" and "held (heap st) ob k x"
  shows "held (heap st') ob k x"
  using assms
proof (induction ds arbitrary: st)
  case Nil
  then show ?case by simp
next
  case (Cons y ys)
  obtain st1 where 1: "override_one ob y st = Inr st1"
    and 2: "for_each (override_one ob) ys st1 = Inr st'"
    using for_each_Inr_Cons [OF Cons.prems(1)] by blast
  have "held (heap st1) ob k x"
    using override_one_keeps_held [of ob "fst y" "snd y" st st1 k x] 1 Cons.prems by auto
  moreover have "ob < next_ref (heap st1)" using override_one_next [OF 1] Cons.prems(3) by simp
  ultimately show ?case using Cons.IH [OF 2] Cons.prems(2) by simp
qed

lemma override_one_new:
  assumes "override_one ob (k, d) st = Inr st'" and "x \<in> set (toFreeze st')" and "x \<notin> set (toFreeze st)"
  shows "held (heap st') ob k x \<and> next_ref (heap st) \<le> x"
proof (cases "configurable d")
  case False
  then show ?thesis using assms by (simp add: override_one_def)
next
  case True
  show ?thesis
  proof (cases d)
    case (DataDesc v w e c)
    then have o: "override_data ob k v e st = Inr st'"
      using assms(1) True by (simp add: override_one_def)
    have "x = next_ref (heap st) \<or> x = Suc (next_ref (heap st))"
      using override_data_InrD(2) [OF o] assms(2,3) by (auto simp: set_set_add)
    then show ?thesis using override_data_held [OF o] by auto
  next
    case (AccessorDesc g s e c)
    then have "toFreeze st' = toFreeze st"
      using assms(1) True by (auto simp: override_one_def override_accessor_def split: sum.splits)
    then show ?thesis using assms(2,3) by simp
  qed
qed

lemma for_each_override_new:
  assumes "for_each (override_one ob) ds st = Inr st'" and "distinct (map fst ds)"
    and "ob < next_ref (heap st)" and "x \<in> set (toFreeze st')" and "x \<notin> set (toFreeze st)"
  shows "(\<exists>k. held (heap st') ob k x) \<and> next_ref (heap st) \<le> x"
  using assms
proof (induction ds arbitrary: st)
  case Nil
  then show ?case by simp
next
  case (Cons y ys)
  obtain st1 where 1: "override_one ob y st = Inr st1"
    and 2: "for_each (override_one ob) ys st1 = Inr st'"
    using for_each_Inr_Cons [OF Cons.prems(1)] by blast
  have n1: "ob < next_ref (heap st1)" using override_one_next [OF 1] Cons.prems(3) by simp
  have d: "distinct (map fst ys)" "fst y \<notin> fst ` set ys" using Cons.prems(2) by auto
  show ?case
  proof (cases "x \<in> set (toFreeze st1)")
    case True
    then have "held (heap st1) ob (fst y) x \<and> next_ref (heap st) \<le> x"
      using override_one_new [of ob "fst y" "snd y" st st1 x] 1 Cons.prems(5) by simp
    then show ?thesis using for_each_override_keeps_held [OF 2 d(2) n1] by blast
  next
    case False
    then show ?thesis using Cons.IH [OF 2 d(1) n1 Cons.prems(4)] override_one_next [OF 1] by auto
  qed
qed

lemma freezeWithOverride_new:
  assumes "freezeWithOverride ob st = Inr st'" and "distinct (map fst (props (objs (heap st) ob)))"
    and "ob < next_ref (heap st)" and "x \<in> set (toFreeze st')" and "x \<notin> set (toFreeze st)"
  shows "x \<in> prop_refs (heap st') ob \<and> next_ref (heap st) \<le> x"
proof -
  obtain st1 where 1: "for_each (override_one ob) (props (objs (heap st) ob)) st = Inr st1"
    and 2: "st' = st1\<lparr>heap := freeze (heap st1) ob\<rparr>"
    using assms(1) by (auto simp: freezeWithOverride_def getOwnPropertyDescriptors_def split: sum.splits)
  have "x \<in> set (toFreeze st1)" using assms(4) 2 by simp
  then have "(\<exists>k. held (heap st1) ob k x) \<and> next_ref (heap st) \<le> x"
    using for_each_override_new [OF 1 assms(2,3) _ assms(5)] by simp
  then obtain k where hk: "held (heap st1) ob k x" and n: "next_ref (heap st) \<le> x" by blast
  from hk have "held (freeze (heap st1) ob) ob k x" by (rule held_freeze)
  then have "x \<in> prop_refs (freeze (heap st1) ob) ob" by (rule held_prop_refs)
  then show ?thesis using 2 n by simp
qed

subsection \<open>What one step adds to the work set and to the registry\<close>

lemma enqueue_new:
  assumes "enqueue v p st = Inr st'" and "x \<in> set (toFreeze st')" and "x \<notin> set (toFreeze st)"
  shows "v = VRef x \<and> x \<notin> fringeSet st"
  using assms by (auto simp: enqueue_def split: val.splits typeof_tag.splits if_splits)

lemma enqueue_fringe: "enqueue v p st = Inr st' \<Longrightarrow> fringeSet st' = fringeSet st"
  by (auto simp: enqueue_def split: val.splits typeof_tag.splits if_splits)

lemma traverse_one_new:
  assumes "traverse_one path nd st = Inr st'" and "x \<in> set (toFreeze st')" and "x \<notin> set (toFreeze st)"
  shows "x \<in> desc_refs (snd nd) \<and> x \<notin> fringeSet st"
proof (cases nd)
  case (Pair k d)
  show ?thesis
  proof (cases d)
    case (DataDesc v w e c)
    then have "enqueue v (Some (path @ ''.'' @ String k)) st = Inr st'"
      using assms(1) Pair by (simp add: traverse_one_def)
    then show ?thesis using enqueue_new assms(2,3) Pair DataDesc by fastforce
  next
    case (AccessorDesc g s e c)
    then obtain st1 where 1: "enqueue g (Some ((path @ ''.'' @ String k) @ ''(get)'')) st = Inr st1"
      and 2: "enqueue s (Some ((path @ ''.'' @ String k) @ ''(set)'')) st1 = Inr st'"
      using assms(1) Pair by (auto simp: traverse_one_def split: sum.splits)
    have f: "fringeSet st1 = fringeSet st" by (rule enqueue_fringe [OF 1])
    show ?thesis
    proof (cases "x \<in> set (toFreeze st1)")
      case True
      then show ?thesis using enqueue_new [OF 1 _ assms(3)] Pair AccessorDesc by simp
    next
      case False
      then show ?thesis using enqueue_new [OF 2 assms(2)] f Pair AccessorDesc by simp
    qed
  qed
qed

lemma traverse_one_fringe: "traverse_one path nd st = Inr st' \<Longrightarrow> fringeSet st' = fringeSet st"
  using traverse_one_evolves [of st path nd] by (simp add: evolves_def grows_def)

lemma for_each_traverse_new:
  assumes "for_each (traverse_one path) ds st = Inr st'" and "x \<in> set (toFreeze st')"
    and "x \<notin> set (toFreeze st)"
  shows "(\<exists>nd\<in>set ds. x \<in> desc_refs (snd nd)) \<and> x \<notin> fringeSet st"
  using assms
proof (induction ds arbitrary: st)
  case Nil
  then show ?case by simp
next
  case (Cons y ys)
  obtain st1 where 1: "traverse_one path y st = Inr st1"
    and 2: "for_each (traverse_one path) ys st1 = Inr st'"
    using for_each_Inr_Cons [OF Cons.prems(1)] by blast
  show ?case
  proof (cases "x \<in> set (toFreeze st1)")
    case True
    then show ?thesis using traverse_one_new [OF 1 _ Cons.prems(3)] by simp
  next
    case False
    then show ?thesis using Cons.IH [OF 2 Cons.prems(2)] traverse_one_fringe [OF 1] by auto
  qed
qed

lemma run_hook_toFreeze: "run_hook c ob st = Inr st1 \<Longrightarrow> toFreeze st1 = toFreeze st \<and> fringeSet st1 = fringeSet st"
  by (auto simp: run_hook_def split: option.splits prod.splits)

lemma record_prototype_toFreeze [simp]:
  "toFreeze (record_prototype pr path st) = toFreeze st"
  "fringeSet (record_prototype pr path st) = fringeSet st"
  by (simp_all add: record_prototype_def split: option.splits)

lemma freezeAndTraverse_new:
  assumes "freezeAndTraverse c n st = Inr st'" and "hook_ok c" and "inv st" and "n < next_ref (heap st)"
    and "\<forall>r\<in>fringeSet st. r < next_ref (heap st)"
    and "x \<in> set (toFreeze st')" and "x \<notin> set (toFreeze st)"
  shows "x \<in> prop_refs (heap st') n \<and> x \<notin> fringeSet st"
proof -
  obtain st1 st2 where 1: "run_hook c n st = Inr st1" and 2: "freezeWithOverride n st1 = Inr st2"
    and 4: "for_each (traverse_one (path_of st2 n)) (getOwnPropertyDescriptors (heap st2) n)
             (record_prototype (getPrototypeOf (heap st2) n) (path_of st2 n) st2) = Inr st'"
    and 5: "heap st' = heap st2"
    using freezeAndTraverse_InrD [OF assms(1)] by blast
  have i1: "inv st1" using run_hook_inv [OF assms(3,2), of n] 1 by simp
  have e1: "evolves st st1" using run_hook_evolves [OF assms(2), of st n] 1 by simp
  then have nx: "next_ref (heap st) \<le> next_ref (heap st1)" by (simp add: evolves_def heap_step_def)
  then have n1: "n < next_ref (heap st1)" using assms(4) by simp
  have d1: "distinct (map fst (props (objs (heap st1) n)))"
    using invD(1) [OF i1] n1 by (simp add: wf_heap_iff obj_ok_def)
  have t1: "toFreeze st1 = toFreeze st" "fringeSet st1 = fringeSet st"
    using run_hook_toFreeze [OF 1] by simp_all
  have f2: "fringeSet st2 = fringeSet st"
    using freezeWithOverride_evolves [of st1 n] 2 t1 by (simp add: evolves_def grows_def)
  show ?thesis
  proof (cases "x \<in> set (toFreeze st2)")
    case True
    then have "x \<in> prop_refs (heap st2) n \<and> next_ref (heap st1) \<le> x"
      using freezeWithOverride_new [OF 2 d1 n1] assms(7) t1 by simp
    then show ?thesis using 5 nx assms(5) by fastforce
  next
    case False
    then have "(\<exists>nd\<in>set (getOwnPropertyDescriptors (heap st2) n). x \<in> desc_refs (snd nd)) \<and>
        x \<notin> fringeSet st2"
      using for_each_traverse_new [OF 4 assms(6)] by simp
    then show ?thesis using 5 f2 by (auto simp: prop_refs_def getOwnPropertyDescriptors_def)
  qed
qed

lemma freezeAndTraverse_prototypes_new:
  assumes "freezeAndTraverse c n st = Inr st'" and "pp \<in> set (prototypes st')"
    and "pp \<notin> set (prototypes st)"
  shows "proto (objs (heap st') n) = Some (fst pp)"
proof -
  obtain st1 st2 where 1: "run_hook c n st = Inr st1" and 2: "freezeWithOverride n st1 = Inr st2"
    and 4: "for_each (traverse_one (path_of st2 n)) (getOwnPropertyDescriptors (heap st2) n)
             (record_prototype (getPrototypeOf (heap st2) n) (path_of st2 n) st2) = Inr st'"
    and 5: "heap st' = heap st2"
    using freezeAndTraverse_InrD [OF assms(1)] by blast
  let ?st3 = "record_prototype (getPrototypeOf (heap st2) n) (path_of st2 n) st2"
  have "prototypes st1 = prototypes st" using run_hook_prototypes [of c n st] 1 by simp
  moreover have "prototypes st2 = prototypes st1" using freezeWithOverride_prototypes [of n st1] 2 by simp
  moreover have "prototypes st' = prototypes ?st3"
    using for_each_traverse_prototypes [of "path_of st2 n" "getOwnPropertyDescriptors (heap st2) n" ?st3] 4
    by simp
  ultimately have "pp \<in> set (prototypes ?st3)" "pp \<notin> set (prototypes st2)" using assms(2,3) by simp_all
  then have "getPrototypeOf (heap st2) n = Some (fst pp)"
    by (auto simp: record_prototype_def split: option.splits if_splits)
  then show ?thesis using 5 by (simp add: getPrototypeOf_def)
qed

subsection \<open>Every entry is traced to the root\<close>

text \<open>
  One step of \<open>forEach\<close> keeps \<open>traced\<close>: what \<open>freezeAndTraverse\<close> adds to \<open>toFreeze\<close>
  are properties of the node it processes, and the processed nodes, being frozen, keep
  their properties and their prototype.
\<close>

lemma tracedI:
  assumes "\<And>j. j < length (toFreeze st) \<Longrightarrow> toFreeze st ! j \<notin> fringeSet st \<and>
         (root = VRef (toFreeze st ! j) \<or>
          (\<exists>k<j. k < i \<and> toFreeze st ! j \<in> prop_refs (heap st) (toFreeze st ! k)))"
    and "\<And>pp. pp \<in> set (prototypes st) \<Longrightarrow> \<exists>k<length (toFreeze st). k < i \<and>
         proto (objs (heap st) (toFreeze st ! k)) = Some (fst pp)"
    and "\<And>r. r \<in> fringeSet st \<Longrightarrow> r < next_ref (heap st)"
  shows "traced root i st"
  unfolding traced_def using assms by simp

lemma tracedD:
  assumes "traced root i st"
  shows "\<And>j. j < length (toFreeze st) \<Longrightarrow> toFreeze st ! j \<notin> fringeSet st"
    and "\<And>j. j < length (toFreeze st) \<Longrightarrow> root \<noteq> VRef (toFreeze st ! j) \<Longrightarrow>
          \<exists>k<j. k < i \<and> toFreeze st ! j \<in> prop_refs (heap st) (toFreeze st ! k)"
    and "\<And>pp. pp \<in> set (prototypes st) \<Longrightarrow> \<exists>k<length (toFreeze st). k < i \<and>
         proto (objs (heap st) (toFreeze st ! k)) = Some (fst pp)"
    and "\<And>r. r \<in> fringeSet st \<Longrightarrow> r < next_ref (heap st)"
  using assms unfolding traced_def by blast+

lemma traced_finished:
  assumes "traced root i st" and "length (toFreeze st) \<le> i"
  shows "traced root (length (toFreeze st)) st"
proof (rule tracedI)
  fix j assume j: "j < length (toFreeze st)"
  show "toFreeze st ! j \<notin> fringeSet st \<and>
         (root = VRef (toFreeze st ! j) \<or>
          (\<exists>k<j. k < length (toFreeze st) \<and> toFreeze st ! j \<in> prop_refs (heap st) (toFreeze st ! k)))"
  proof (cases "root = VRef (toFreeze st ! j)")
    case True
    then show ?thesis using tracedD(1) [OF assms(1) j] by simp
  next
    case False
    then obtain k where "k < j" "toFreeze st ! j \<in> prop_refs (heap st) (toFreeze st ! k)"
      using tracedD(2) [OF assms(1) j] by blast
    moreover from this have "k < length (toFreeze st)" using j by simp
    ultimately show ?thesis using tracedD(1) [OF assms(1) j] by blast
  qed
next
  fix pp assume "pp \<in> set (prototypes st)"
  then obtain k where "k < length (toFreeze st)" "proto (objs (heap st) (toFreeze st ! k)) = Some (fst pp)"
    using tracedD(3) [OF assms(1)] by blast
  then show "\<exists>k<length (toFreeze st). k < length (toFreeze st) \<and>
         proto (objs (heap st) (toFreeze st ! k)) = Some (fst pp)" by blast
next
  fix r assume "r \<in> fringeSet st"
  then show "r < next_ref (heap st)" using tracedD(4) [OF assms(1)] by blast
qed

lemma prefix_new_nth:
  assumes "prefix xs ys" and "distinct ys" and "length xs \<le> j" and "j < length ys"
  shows "ys ! j \<notin> set xs"
proof -
  obtain zs where ys: "ys = xs @ zs" using assms(1) by (auto simp: prefix_def)
  have "ys ! j = zs ! (j - length xs)" using assms(3) ys by (simp add: nth_append)
  moreover have "j - length xs < length zs" using assms(3,4) ys by simp
  ultimately have "ys ! j \<in> set zs" by simp
  then show ?thesis using assms(2) ys by auto
qed

lemma freezeAndTraverse_keeps_done:
  assumes "i < length (toFreeze st)" and "freezeAndTraverse c (toFreeze st ! i) st = Inr st1"
    and "hook_ok c" and "inv st" and "\<forall>j<i. node_done st (toFreeze st ! j)"
    and "j < Suc i"
  shows "node_done st1 (toFreeze st1 ! j)"
proof -
  have ev: "evolves st st1" using freezeAndTraverse_evolves [OF assms(3), of st "toFreeze st ! i"] assms(2) by simp
  then have pf: "prefix (toFreeze st) (toFreeze st1)" by (simp add: evolves_def grows_def)
  show ?thesis
  proof (cases "j = i")
    case True
    then have "toFreeze st1 ! j = toFreeze st ! i" using prefix_nth [OF pf assms(1)] by simp
    then show ?thesis using freezeAndTraverse_done [OF assms(2)] by simp
  next
    case False
    then have ji: "j < i" using assms(6) by simp
    then have jl: "j < length (toFreeze st)" using assms(1) by simp
    have e: "toFreeze st1 ! j = toFreeze st ! j" using prefix_nth [OF pf jl] .
    have "node_done st (toFreeze st ! j)" using assms(5) ji by simp
    moreover have "toFreeze st ! j < next_ref (heap st)" using invD(2) [OF assms(4)] jl by simp
    ultimately show ?thesis using node_done_evolves ev e by simp
  qed
qed

lemma freezeAndTraverse_traced:
  assumes lt: "i < length (toFreeze st)" and ft: "freezeAndTraverse c (toFreeze st ! i) st = Inr st1"
    and hk: "hook_ok c" and iv: "inv st" and tr: "traced root i st"
    and dn: "\<forall>j<i. node_done st (toFreeze st ! j)"
  shows "traced root (Suc i) st1"
proof -
  let ?n = "toFreeze st ! i"
  have n: "?n < next_ref (heap st)" using invD(2) [OF iv] lt by simp
  have ev: "evolves st st1" using freezeAndTraverse_evolves [OF hk, of st ?n] ft by simp
  then have pf: "prefix (toFreeze st) (toFreeze st1)" and fs: "fringeSet st1 = fringeSet st"
    and hs: "heap_step (heap st) (heap st1)"
    by (simp_all add: evolves_def grows_def)
  have i1: "inv st1" using freezeAndTraverse_inv [OF iv hk n] ft by simp
  have fb: "\<forall>r\<in>fringeSet st. r < next_ref (heap st)" using tracedD(4) [OF tr] by blast
  have len: "length (toFreeze st) \<le> length (toFreeze st1)" using pf by (rule prefix_length_le)
  have same: "prop_refs (heap st1) (toFreeze st ! k) = prop_refs (heap st) (toFreeze st ! k) \<and>
      proto (objs (heap st1) (toFreeze st ! k)) = proto (objs (heap st) (toFreeze st ! k))"
    if "k < i" for k
  proof -
    have kl: "k < length (toFreeze st)" using that lt by simp
    have a: "toFreeze st ! k < next_ref (heap st)" using invD(2) [OF iv] kl by simp
    have f: "frozen_obj (objs (heap st) (toFreeze st ! k))" using dn that by (simp add: node_done_def)
    have "props (objs (heap st1) (toFreeze st ! k)) = props (objs (heap st) (toFreeze st ! k))"
      using heap_step_frozen_props [OF hs a f] .
    moreover have "proto (objs (heap st1) (toFreeze st ! k)) = proto (objs (heap st) (toFreeze st ! k))"
      using hs a f unfolding heap_step_def by blast
    ultimately show ?thesis by (simp add: prop_refs_def)
  qed
  have 1: "toFreeze st1 ! j \<notin> fringeSet st1 \<and>
         (root = VRef (toFreeze st1 ! j) \<or>
          (\<exists>k<j. k < Suc i \<and> toFreeze st1 ! j \<in> prop_refs (heap st1) (toFreeze st1 ! k)))"
    if j: "j < length (toFreeze st1)" for j
  proof (cases "j < length (toFreeze st)")
    case True
    have e: "toFreeze st1 ! j = toFreeze st ! j" using prefix_nth [OF pf True] .
    have o1: "toFreeze st ! j \<notin> fringeSet st" using tracedD(1) [OF tr True] .
    show ?thesis
    proof (cases "root = VRef (toFreeze st ! j)")
      case True
      then show ?thesis using o1 e fs by simp
    next
      case False
      then obtain k where k: "k < j" "k < i" "toFreeze st ! j \<in> prop_refs (heap st) (toFreeze st ! k)"
        using tracedD(2) [OF tr \<open>j < length (toFreeze st)\<close>] by blast
      have kl: "k < length (toFreeze st)" using k(2) lt by simp
      have "toFreeze st1 ! k = toFreeze st ! k" using prefix_nth [OF pf kl] .
      then have "toFreeze st1 ! j \<in> prop_refs (heap st1) (toFreeze st1 ! k)"
        using same [OF k(2)] k(3) e by simp
      moreover have "k < Suc i" using k(2) by simp
      ultimately have "\<exists>k<j. k < Suc i \<and> toFreeze st1 ! j \<in> prop_refs (heap st1) (toFreeze st1 ! k)"
        using k(1) by blast
      then show ?thesis using o1 e fs by simp
    qed
  next
    case False
    then have ge: "length (toFreeze st) \<le> j" by simp
    have nw: "toFreeze st1 ! j \<notin> set (toFreeze st)"
      using prefix_new_nth [OF pf invD(3) [OF i1] ge j] .
    have "toFreeze st1 ! j \<in> set (toFreeze st1)" using j by simp
    then have x: "toFreeze st1 ! j \<in> prop_refs (heap st1) ?n \<and> toFreeze st1 ! j \<notin> fringeSet st"
      using freezeAndTraverse_new [OF ft hk iv n fb _ nw] by simp
    have "toFreeze st1 ! i = ?n" using prefix_nth [OF pf lt] .
    moreover have "i < j" using lt ge by simp
    ultimately have "\<exists>k<j. k < Suc i \<and> toFreeze st1 ! j \<in> prop_refs (heap st1) (toFreeze st1 ! k)"
      using x by (intro exI [of _ i]) simp
    then show ?thesis using x fs by simp
  qed
  have 2: "\<exists>k<length (toFreeze st1). k < Suc i \<and>
         proto (objs (heap st1) (toFreeze st1 ! k)) = Some (fst pp)"
    if pp: "pp \<in> set (prototypes st1)" for pp
  proof (cases "pp \<in> set (prototypes st)")
    case True
    then obtain k where k: "k < length (toFreeze st)" "k < i"
      "proto (objs (heap st) (toFreeze st ! k)) = Some (fst pp)"
      using tracedD(3) [OF tr True] by blast
    have "toFreeze st1 ! k = toFreeze st ! k" using prefix_nth [OF pf k(1)] .
    then have "proto (objs (heap st1) (toFreeze st1 ! k)) = Some (fst pp)"
      using same [OF k(2)] k(3) by simp
    then show ?thesis using k(1,2) len by (intro exI [of _ k]) simp
  next
    case False
    have "proto (objs (heap st1) ?n) = Some (fst pp)"
      using freezeAndTraverse_prototypes_new [OF ft pp False] .
    moreover have "toFreeze st1 ! i = ?n" using prefix_nth [OF pf lt] .
    ultimately show ?thesis using lt len by (intro exI [of _ i]) simp
  qed
  have nx: "next_ref (heap st) \<le> next_ref (heap st1)" using hs by (simp add: heap_step_def)
  have 3: "r < next_ref (heap st1)" if "r \<in> fringeSet st1" for r
  proof -
    have "r < next_ref (heap st)" using fb that fs by simp
    then show ?thesis using nx by simp
  qed
  show ?thesis using 1 2 3 by (rule tracedI)
qed

lemma dequeue_from_traced:
  assumes "dequeue_from c i st = Some r" and "hook_ok c" and "inv st" and "traced root i st"
    and "\<forall>j<i. j < length (toFreeze st) \<longrightarrow> node_done st (toFreeze st ! j)"
    and "r = Inr st'"
  shows "traced root (length (toFreeze st')) st'"
  using assms(1,3,4,5,6)
proof (induction rule: dequeue_from_induct)
  case (finished i st)
  then have "st' = st" and "length (toFreeze st) \<le> i" by simp_all
  then show ?case using traced_finished [OF finished(3)] by simp
next
  case (throws i st x)
  then show ?case by simp
next
  case (step i st st1 r)
  let ?n = "toFreeze st ! i"
  have n: "?n < next_ref (heap st)" using invD(2) [OF step(5)] step(1) by simp
  have i1: "inv st1" using freezeAndTraverse_inv [OF step(5) assms(2) n] step(2) by simp
  have dn: "\<forall>j<i. node_done st (toFreeze st ! j)" using step(7) step(1) by simp
  have t1: "traced root (Suc i) st1"
    using freezeAndTraverse_traced [OF step(1,2) assms(2) step(5,6) dn] .
  have d1: "\<forall>j<Suc i. j < length (toFreeze st1) \<longrightarrow> node_done st1 (toFreeze st1 ! j)"
    using freezeAndTraverse_keeps_done [OF step(1,2) assms(2) step(5) dn] by blast
  show ?case using step(4) [OF i1 t1 d1 step(8)] .
qed

subsection \<open>Two walks that visit the same nodes\<close>

text \<open>
  A walk whose entries are traced visits no node that a second walk from the same root and
  \<open>fringeSet\<close> has not visited too, when the second walk has completed. Hence a retry that
  returned would have recorded, and found covered, the prototype the first call threw for.
\<close>

lemma enqueue_traced:
  assumes "enqueue root None (new_call h fr) = Inr st0" and "\<forall>r\<in>fr. r < next_ref h"
  shows "traced root 0 st0"
proof (rule tracedI)
  have c: "st0 = new_call h fr \<or>
      (\<exists>x. root = VRef x \<and> x \<notin> fr \<and> st0 = (new_call h fr)\<lparr>toFreeze := [x], paths := (paths (new_call h fr))(x := None)\<rparr>)"
    using assms(1) by (auto simp: enqueue_def new_call_def split: val.splits typeof_tag.splits if_splits)
  have f: "fringeSet st0 = fr" "heap st0 = h" "prototypes st0 = []"
    using c by (auto simp: new_call_def)
  show "toFreeze st0 ! j \<notin> fringeSet st0 \<and>
         (root = VRef (toFreeze st0 ! j) \<or>
          (\<exists>k<j. k < 0 \<and> toFreeze st0 ! j \<in> prop_refs (heap st0) (toFreeze st0 ! k)))"
    if "j < length (toFreeze st0)" for j
    using c that by (auto simp: new_call_def)
  show "\<exists>k<length (toFreeze st0). k < 0 \<and> proto (objs (heap st0) (toFreeze st0 ! k)) = Some (fst pp)"
    if "pp \<in> set (prototypes st0)" for pp
    using that f by simp
  show "r < next_ref (heap st0)" if "r \<in> fringeSet st0" for r
    using that f assms(2) by simp
qed

lemma visited_subset:
  assumes tr: "traced root (length (toFreeze a)) a"
    and dn: "\<forall>n\<in>set (toFreeze b). node_done b n"
    and rt: "\<forall>x. root = VRef x \<longrightarrow> covered b x"
    and fs: "fringeSet b = fringeSet a"
    and pr: "\<forall>n\<in>set (toFreeze a) \<inter> set (toFreeze b). prop_refs (heap b) n = prop_refs (heap a) n"
  shows "set (toFreeze a) \<subseteq> set (toFreeze b)"
proof -
  have "toFreeze a ! j \<in> set (toFreeze b)" if "j < length (toFreeze a)" for j
    using that
  proof (induction j rule: less_induct)
    case (less j)
    have nf: "toFreeze a ! j \<notin> fringeSet b" using tracedD(1) [OF tr less.prems] fs by simp
    have "covered b (toFreeze a ! j)"
    proof (cases "root = VRef (toFreeze a ! j)")
      case True
      then show ?thesis using rt by simp
    next
      case False
      then obtain k where k: "k < j" "toFreeze a ! j \<in> prop_refs (heap a) (toFreeze a ! k)"
        using tracedD(2) [OF tr less.prems] by blast
      have kl: "k < length (toFreeze a)" using k(1) less.prems by simp
      have kb: "toFreeze a ! k \<in> set (toFreeze b)" using less.IH [OF k(1) kl] .
      have "toFreeze a ! k \<in> set (toFreeze a)" using kl by simp
      then have "prop_refs (heap b) (toFreeze a ! k) = prop_refs (heap a) (toFreeze a ! k)"
        using pr kb by blast
      then have "toFreeze a ! j \<in> prop_refs (heap b) (toFreeze a ! k)" using k(2) by simp
      moreover have "node_done b (toFreeze a ! k)" using dn kb by blast
      ultimately show ?thesis by (auto simp: node_done_def prop_refs_def)
    qed
    then show ?case using nf by (simp add: covered_def)
  qed
  then show ?thesis by (auto simp: in_set_conv_nth)
qed

lemma walked:
  assumes e: "enqueue root None (new_call h fr) = Inr st0"
    and d: "dequeue_from c 0 st0 = Some (Inr st1)"
    and wf: "wf_heap h" and ok: "val_ok (next_ref h) root" and hk: "hook_ok c"
    and fb: "\<forall>r\<in>fr. r < next_ref h"
  shows "inv st1" and "traced root (length (toFreeze st1)) st1"
    and "\<forall>n\<in>set (toFreeze st1). node_done st1 n" and "fringeSet st1 = fr"
    and "heap_step h (heap st1)" and "\<forall>x. root = VRef x \<longrightarrow> covered st1 x"
proof -
  have i0: "inv st0"
    using enqueue_inv [OF new_call_inv [OF wf, of fr], of root None] ok e by (simp add: new_call_def)
  show "inv st1" using dequeue_from_inv [OF d hk i0] by simp
  show "traced root (length (toFreeze st1)) st1"
    using dequeue_from_traced [OF d hk i0 enqueue_traced [OF e fb]] by simp
  show "\<forall>n\<in>set (toFreeze st1). node_done st1 n" using dequeue_from_done [OF d hk i0] by simp
  have ev: "evolves (new_call h fr) st1"
    using evolves_trans [OF enqueue_evolves [of "new_call h fr" root None]] e
      dequeue_from_evolves [OF d hk] by simp
  show "fringeSet st1 = fr" using ev by (simp add: evolves_def grows_def new_call_def)
  show "heap_step h (heap st1)" using ev by (simp add: evolves_def new_call_def)
  show "\<forall>x. root = VRef x \<longrightarrow> covered st1 x"
    using enqueue_covers [OF e] covered_grows [OF dequeue_from_grows [OF d]] by simp
qed

lemma frozen_same:
  assumes "heap_step h h'" and "n < next_ref h" and "frozen_obj (objs h n)"
  shows "prop_refs h' n = prop_refs h n" and "proto (objs h' n) = proto (objs h n)"
proof -
  show "prop_refs h' n = prop_refs h n"
    using heap_step_frozen_props [OF assms] by (simp add: prop_refs_def)
  show "proto (objs h' n) = proto (objs h n)" using assms unfolding heap_step_def by blast
qed

lemma retry_not_success:
  assumes e: "enqueue root None (new_call h fr) = Inr st0"
    and d: "dequeue_from c 0 st0 = Some (Inr st1)"
    and ck: "checkPrototypes st1 = Inl x"
    and wf: "wf_heap h" and ok: "val_ok (next_ref h) root" and hk: "hook_ok c"
    and fb: "\<forall>r\<in>fr. r < next_ref h"
  shows "harden c root (heap st1) fr \<noteq> Some (Inr r, h2, fr2)"
proof
  assume s: "harden c root (heap st1) fr = Some (Inr r, h2, fr2)"
  note a = walked [OF e d wf ok hk fb]
  have nx: "next_ref h \<le> next_ref (heap st1)" using a(5) by (simp add: heap_step_def)
  have ok1: "val_ok (next_ref (heap st1)) root" using ok nx by (cases root) simp_all
  have fb1: "\<forall>r\<in>fr. r < next_ref (heap st1)" using fb nx by fastforce
  from s obtain st0' st2 where e2: "enqueue root None (new_call (heap st1) fr) = Inr st0'"
    and d2: "dequeue_from c 0 st0' = Some (Inr st2)" and ck2: "checkPrototypes st2 = Inr st2"
    by (rule harden_InrD)
  note b = walked [OF e2 d2 invD(1) [OF a(1)] ok1 hk fb1]
  have al: "n < next_ref (heap st1)" if "n \<in> set (toFreeze st1)" for n
    using invD(2) [OF a(1) that] .
  have fz: "frozen_obj (objs (heap st1) n)" if "n \<in> set (toFreeze st1)" for n
    using a(3) that by (simp add: node_done_def)
  have same: "prop_refs (heap st2) n = prop_refs (heap st1) n \<and>
      proto (objs (heap st2) n) = proto (objs (heap st1) n)" if "n \<in> set (toFreeze st1)" for n
    using frozen_same [OF b(5) al [OF that] fz [OF that]] by simp
  have s12: "set (toFreeze st1) \<subseteq> set (toFreeze st2)"
    using visited_subset [OF a(2) b(3) b(6)] a(4) b(4) same by simp
  have s21: "set (toFreeze st2) \<subseteq> set (toFreeze st1)"
    using visited_subset [OF b(2) a(3) a(6)] a(4) b(4) same by simp
  obtain pp where pp: "pp \<in> set (prototypes st1)" "fst pp \<notin> set (toFreeze st1)" "fst pp \<notin> fr"
    using ck a(4) find_offending_None [of st1 "prototypes st1"]
    by (auto simp: checkPrototypes_def check_each_find split: option.splits)
  obtain k where k: "k < length (toFreeze st1)"
    "proto (objs (heap st1) (toFreeze st1 ! k)) = Some (fst pp)"
    using tracedD(3) [OF a(2) pp(1)] by blast
  let ?n = "toFreeze st1 ! k"
  have n1: "?n \<in> set (toFreeze st1)" using k(1) by simp
  then have n2: "?n \<in> set (toFreeze st2)" using s12 by blast
  have "proto (objs (heap st2) ?n) = Some (fst pp)" using same [OF n1] k(2) by simp
  moreover have "node_done st2 ?n" using b(3) n2 by blast
  ultimately have "fst pp \<in> fst ` set (prototypes st2)" by (simp add: node_done_def)
  then have "covered st2 (fst pp)" using checkPrototypes_Inr_covered [OF ck2] by auto
  then have "fst pp \<in> set (toFreeze st2)" using pp(3) b(4) by (simp add: covered_def)
  then show False using s21 pp(2) by blast
qed

subsection \<open>The links of a processed node are typed\<close>

lemma enqueue_typed:
  "enqueue (VRef r) p st = Inr st' \<Longrightarrow> typeof (objs (heap st) r) \<noteq> TOther t"
  by (auto simp: enqueue_def split: typeof_tag.splits)

lemma traverse_one_typed:
  assumes "traverse_one path nd st = Inr st'" and "r \<in> desc_refs (snd nd)"
  shows "typeof (objs (heap st) r) \<noteq> TOther t"
proof (cases nd)
  case (Pair k d)
  show ?thesis
  proof (cases d)
    case (DataDesc v w e c)
    then have "enqueue (VRef r) (Some (path @ ''.'' @ String k)) st = Inr st'"
      using assms Pair by (cases v) (simp_all add: traverse_one_def)
    then show ?thesis by (rule enqueue_typed)
  next
    case (AccessorDesc g s e c)
    then obtain st1 where 1: "enqueue g (Some ((path @ ''.'' @ String k) @ ''(get)'')) st = Inr st1"
      and 2: "enqueue s (Some ((path @ ''.'' @ String k) @ ''(set)'')) st1 = Inr st'"
      using assms(1) Pair by (auto simp: traverse_one_def split: sum.splits)
    have h1: "heap st1 = heap st" using enqueue_heap [of g _ st] 1 by (auto simp: enqueue_def split: val.splits typeof_tag.splits if_splits)
    have "g = VRef r \<or> s = VRef r" using assms(2) Pair AccessorDesc by (cases g; cases s) auto
    then show ?thesis using enqueue_typed 1 2 h1 by metis
  qed
qed

lemma for_each_traverse_typed:
  assumes "for_each (traverse_one path) ds st = Inr st'" and "nd \<in> set ds" and "r \<in> desc_refs (snd nd)"
  shows "typeof (objs (heap st) r) \<noteq> TOther t"
  using assms
proof (induction ds arbitrary: st)
  case Nil
  then show ?case by simp
next
  case (Cons y ys)
  obtain st1 where 1: "traverse_one path y st = Inr st1"
    and 2: "for_each (traverse_one path) ys st1 = Inr st'"
    using for_each_Inr_Cons [OF Cons.prems(1)] by blast
  have h: "heap st1 = heap st" using traverse_one_heap [of path y st] 1 by simp
  show ?case
  proof (cases "nd = y")
    case True
    then show ?thesis using traverse_one_typed [OF 1] Cons.prems(3) by simp
  next
    case False
    then show ?thesis using Cons.IH [OF 2 _ Cons.prems(3)] Cons.prems(2) h by simp
  qed
qed

lemma freezeAndTraverse_typed:
  assumes "freezeAndTraverse c n st = Inr st'"
  shows "typed (heap st') n"
proof -
  obtain st1 st2 where
    4: "for_each (traverse_one (path_of st2 n)) (getOwnPropertyDescriptors (heap st2) n)
             (record_prototype (getPrototypeOf (heap st2) n) (path_of st2 n) st2) = Inr st'"
    and 5: "heap st' = heap st2"
    using freezeAndTraverse_InrD [OF assms] by blast
  show ?thesis
    using for_each_traverse_typed [OF 4] 5
    by (auto simp: typed_def prop_refs_def getOwnPropertyDescriptors_def record_prototype_heap)
qed

lemma wf_prop_refs:
  assumes "wf_heap h" and "n < next_ref h" and "r \<in> prop_refs h n"
  shows "r < next_ref h"
proof -
  have "obj_ok (next_ref h) (objs h n)" using assms(1,2) by (simp add: wf_heap_iff)
  then have "\<forall>kd\<in>set (props (objs h n)). desc_ok (next_ref h) (snd kd)"
    by (simp add: obj_ok_def list_all_iff)
  moreover obtain kd where "kd \<in> set (props (objs h n))" "r \<in> desc_refs (snd kd)"
    using assms(3) by (auto simp: prop_refs_def)
  ultimately have d: "desc_ok (next_ref h) (snd kd)" and r: "r \<in> desc_refs (snd kd)" by auto
  show ?thesis
  proof (cases "snd kd")
    case (DataDesc v w e c)
    then show ?thesis using d r by (cases v) simp_all
  next
    case (AccessorDesc g s e c)
    then show ?thesis using d r by (cases g; cases s) auto
  qed
qed

lemma typed_heap_step:
  assumes "typed h n" and "heap_step h h'" and "n < next_ref h" and "frozen_obj (objs h n)"
    and "wf_heap h"
  shows "typed h' n"
proof -
  have p: "prop_refs h' n = prop_refs h n" using frozen_same(1) [OF assms(2,3,4)] .
  have "typeof (objs h' r) \<noteq> TOther t" if "r \<in> prop_refs h n" for r t
  proof -
    have "r < next_ref h" using wf_prop_refs [OF assms(5,3) that] .
    then have "typeof (objs h' r) = typeof (objs h r)" using assms(2) by (simp add: heap_step_def)
    then show ?thesis using assms(1) that by (simp add: typed_def)
  qed
  then show ?thesis using p by (simp add: typed_def)
qed

lemma dequeue_from_typed:
  assumes "dequeue_from c i st = Some r" and "hook_ok c" and "inv st"
    and "\<forall>j<i. j < length (toFreeze st) \<longrightarrow>
           node_done st (toFreeze st ! j) \<and> typed (heap st) (toFreeze st ! j)"
    and "r = Inr st'"
  shows "\<forall>n\<in>set (toFreeze st'). typed (heap st') n"
  using assms(1,3,4,5)
proof (induction rule: dequeue_from_induct)
  case (finished i st)
  then show ?case by (auto simp: in_set_conv_nth)
next
  case (throws i st x)
  then show ?case by simp
next
  case (step i st st1 r)
  let ?n = "toFreeze st ! i"
  have n: "?n < next_ref (heap st)" using invD(2) [OF step(5)] step(1) by simp
  have i1: "inv st1" using freezeAndTraverse_inv [OF step(5) assms(2) n] step(2) by simp
  have ev: "evolves st st1" using freezeAndTraverse_evolves [OF assms(2), of st ?n] step(2) by simp
  then have pf: "prefix (toFreeze st) (toFreeze st1)" and hs: "heap_step (heap st) (heap st1)"
    by (simp_all add: evolves_def grows_def)
  have dn: "\<forall>j<i. node_done st (toFreeze st ! j)" using step(6) step(1) by simp
  have "node_done st1 (toFreeze st1 ! j) \<and> typed (heap st1) (toFreeze st1 ! j)" if j: "j < Suc i" for j
  proof (cases "j = i")
    case True
    then have "toFreeze st1 ! j = ?n" using prefix_nth [OF pf step(1)] by simp
    then show ?thesis
      using freezeAndTraverse_keeps_done [OF step(1,2) assms(2) step(5) dn j]
        freezeAndTraverse_typed [OF step(2)] by simp
  next
    case False
    then have ji: "j < i" using j by simp
    then have jl: "j < length (toFreeze st)" using step(1) by simp
    have e: "toFreeze st1 ! j = toFreeze st ! j" using prefix_nth [OF pf jl] .
    have a: "toFreeze st ! j < next_ref (heap st)" using invD(2) [OF step(5)] jl by simp
    have d: "node_done st (toFreeze st ! j)" and t: "typed (heap st) (toFreeze st ! j)"
      using step(6) ji jl by simp_all
    have f: "frozen_obj (objs (heap st) (toFreeze st ! j))" using d by (simp add: node_done_def)
    have "typed (heap st1) (toFreeze st ! j)"
      using typed_heap_step [OF t hs a f invD(1) [OF step(5)]] .
    then show ?thesis
      using freezeAndTraverse_keeps_done [OF step(1,2) assms(2) step(5) dn j] e by simp
  qed
  then show ?case using step(4) [OF i1 _ step(7)] by blast
qed

subsection \<open>A walk over settled nodes\<close>

text \<open>
  On a settled set of nodes \<open>freezeWithOverride\<close> changes nothing and every \<open>enqueue\<close>
  returns: the walk stays within the set and leaves the heap as it is.
\<close>

lemma for_each_override_idle:
  "list_all (\<lambda>kd. frozen_desc (snd kd)) ds \<Longrightarrow> for_each (override_one ob) ds st = Inr st"
proof (induction ds)
  case Nil
  then show ?case by simp
next
  case (Cons y ys)
  have "\<not> configurable (snd y)" using Cons.prems by (cases "snd y") auto
  then have "override_one ob y st = Inr st" by (cases y) (simp add: override_one_def)
  then show ?case using Cons by simp
qed

lemma freeze_desc_idle: "frozen_desc d \<Longrightarrow> freeze_desc d = d"
  by (cases d) auto

lemma freeze_idle:
  assumes "frozen_obj (objs h n)"
  shows "freeze h n = h"
proof -
  have "map (\<lambda>(k, d). (k, freeze_desc d)) (props (objs h n)) = props (objs h n)"
    using assms by (auto simp: frozen_obj_def list_all_iff freeze_desc_idle intro!: map_idI)
  moreover have "extensible (objs h n) = False" using assms by (simp add: frozen_obj_def)
  ultimately have "(objs h n)\<lparr>props := map (\<lambda>(k, d). (k, freeze_desc d)) (props (objs h n)),
      extensible := False\<rparr> = objs h n" by simp
  then show ?thesis by (simp add: freeze_def set_obj_def)
qed

lemma freezeWithOverride_idle:
  assumes "frozen_obj (objs (heap st) n)"
  shows "freezeWithOverride n st = Inr st"
proof -
  have "for_each (override_one n) (getOwnPropertyDescriptors (heap st) n) st = Inr st"
    using assms by (simp add: for_each_override_idle frozen_obj_def getOwnPropertyDescriptors_def)
  then show ?thesis using freeze_idle [OF assms] by (simp add: freezeWithOverride_def)
qed

lemma enqueue_within:
  assumes "\<forall>r\<in>val_refs v. (r \<in> D \<or> r \<in> fringeSet st) \<and> (\<forall>t. typeof (objs (heap st) r) \<noteq> TOther t)"
    and "set (toFreeze st) \<subseteq> D"
  shows "\<exists>st'. enqueue v p st = Inr st' \<and> heap st' = heap st \<and> fringeSet st' = fringeSet st \<and>
           set (toFreeze st') \<subseteq> D"
  using assms by (cases v) (auto simp: enqueue_def split: typeof_tag.splits)

lemma traverse_one_within:
  assumes "\<forall>r\<in>desc_refs (snd nd). (r \<in> D \<or> r \<in> fringeSet st) \<and>
             (\<forall>t. typeof (objs (heap st) r) \<noteq> TOther t)"
    and "set (toFreeze st) \<subseteq> D"
  shows "\<exists>st'. traverse_one path nd st = Inr st' \<and> heap st' = heap st \<and>
           fringeSet st' = fringeSet st \<and> set (toFreeze st') \<subseteq> D"
proof (cases nd)
  case (Pair k d)
  show ?thesis
  proof (cases d)
    case (DataDesc v w e c)
    then show ?thesis
      using enqueue_within [of v D st "Some (path @ ''.'' @ String k)"] assms Pair
      by (simp add: traverse_one_def)
  next
    case (AccessorDesc g s e c)
    let ?pn = "path @ ''.'' @ String k"
    have "\<exists>st1. enqueue g (Some (?pn @ ''(get)'')) st = Inr st1 \<and> heap st1 = heap st \<and>
        fringeSet st1 = fringeSet st \<and> set (toFreeze st1) \<subseteq> D"
      using assms Pair AccessorDesc by (intro enqueue_within) auto
    then obtain st1 where 1: "enqueue g (Some (?pn @ ''(get)'')) st = Inr st1" "heap st1 = heap st"
      "fringeSet st1 = fringeSet st" "set (toFreeze st1) \<subseteq> D" by blast
    have "\<exists>st'. enqueue s (Some (?pn @ ''(set)'')) st1 = Inr st' \<and> heap st' = heap st1 \<and>
        fringeSet st' = fringeSet st1 \<and> set (toFreeze st') \<subseteq> D"
      using assms(1) Pair AccessorDesc 1 by (intro enqueue_within) auto
    then obtain st' where 2: "enqueue s (Some (?pn @ ''(set)'')) st1 = Inr st'" "heap st' = heap st1"
      "fringeSet st' = fringeSet st1" "set (toFreeze st') \<subseteq> D" by blast
    have "traverse_one path nd st = Inr st'"
      using 1(1) 2(1) Pair AccessorDesc by (simp add: traverse_one_def)
    then show ?thesis using 1 2 by simp
  qed
qed

lemma for_each_traverse_within:
  assumes "\<forall>nd\<in>set ds. \<forall>r\<in>desc_refs (snd nd). (r \<in> D \<or> r \<in> fringeSet st) \<and>
             (\<forall>t. typeof (objs (heap st) r) \<noteq> TOther t)"
    and "set (toFreeze st) \<subseteq> D"
  shows "\<exists>st'. for_each (traverse_one path) ds st = Inr st' \<and> heap st' = heap st \<and>
           fringeSet st' = fringeSet st \<and> set (toFreeze st') \<subseteq> D"
  using assms
proof (induction ds arbitrary: st)
  case Nil
  then show ?case by simp
next
  case (Cons y ys)
  obtain st1 where 1: "traverse_one path y st = Inr st1" "heap st1 = heap st"
    "fringeSet st1 = fringeSet st" "set (toFreeze st1) \<subseteq> D"
    using traverse_one_within [of y D st path] Cons.prems by auto
  have "\<exists>st'. for_each (traverse_one path) ys st1 = Inr st' \<and> heap st' = heap st1 \<and>
           fringeSet st' = fringeSet st1 \<and> set (toFreeze st') \<subseteq> D"
    using Cons.prems(1) 1 by (intro Cons.IH) auto
  then show ?case using 1 by auto
qed

lemma freezeAndTraverse_within:
  assumes "naivePrepareObject c = None" and "settled (heap st) (fringeSet st) D" and "n \<in> D"
    and "set (toFreeze st) \<subseteq> D"
  shows "\<exists>st'. freezeAndTraverse c n st = Inr st' \<and> heap st' = heap st \<and>
           fringeSet st' = fringeSet st \<and> set (toFreeze st') \<subseteq> D"
proof -
  have fz: "frozen_obj (objs (heap st) n)" and pr: "prop_refs (heap st) n \<subseteq> D \<union> fringeSet st"
    and ty: "typed (heap st) n"
    using assms(2,3) by (simp_all add: settled_def)
  let ?st3 = "record_prototype (getPrototypeOf (heap st) n) (path_of st n) st"
  have eq: "freezeAndTraverse c n st =
      for_each (traverse_one (path_of st n)) (getOwnPropertyDescriptors (heap st) n) ?st3"
    using assms(1) freezeWithOverride_idle [OF fz] by (simp add: freezeAndTraverse_def run_hook_def Let_def)
  have "\<exists>st'. for_each (traverse_one (path_of st n)) (getOwnPropertyDescriptors (heap st) n) ?st3 =
      Inr st' \<and> heap st' = heap ?st3 \<and> fringeSet st' = fringeSet ?st3 \<and> set (toFreeze st') \<subseteq> D"
  proof (rule for_each_traverse_within)
    show "\<forall>nd\<in>set (getOwnPropertyDescriptors (heap st) n). \<forall>r\<in>desc_refs (snd nd).
        (r \<in> D \<or> r \<in> fringeSet ?st3) \<and> (\<forall>t. typeof (objs (heap ?st3) r) \<noteq> TOther t)"
      using pr ty
      by (auto simp: prop_refs_def typed_def getOwnPropertyDescriptors_def record_prototype_heap)
    show "set (toFreeze ?st3) \<subseteq> D" using assms(4) by simp
  qed
  then show ?thesis using eq by (simp add: record_prototype_heap)
qed

lemma dequeue_from_within:
  assumes "dequeue_from c i st = Some r" and "naivePrepareObject c = None"
    and "settled (heap st) (fringeSet st) D" and "set (toFreeze st) \<subseteq> D"
  shows "\<exists>st'. r = Inr st' \<and> heap st' = heap st \<and> fringeSet st' = fringeSet st"
  using assms(1,3,4)
proof (induction rule: dequeue_from_induct)
  case (finished i st)
  then show ?case by simp
next
  case (throws i st x)
  have nD: "toFreeze st ! i \<in> D" using throws(1,4) by auto
  show ?case using freezeAndTraverse_within [OF assms(2) throws(3) nD throws(4)] throws(2) by auto
next
  case (step i st st1 r)
  have nD: "toFreeze st ! i \<in> D" using step(1,6) by auto
  have s: "heap st1 = heap st" "fringeSet st1 = fringeSet st" "set (toFreeze st1) \<subseteq> D"
    using freezeAndTraverse_within [OF assms(2) step(5) nD step(6)] step(2) by auto
  then show ?case using step(4) step(5) by simp
qed

subsection \<open>The same call again\<close>

text \<open>
  No step before the prototype check throws the UnreachablePrototype error. After a call
  without hook that threw it, the visited nodes are settled: the same call walks over them
  and reaches the prototype check again.
\<close>

lemma for_each_Inl:
  assumes "for_each f ys st = Inl x" and "\<And>y s x. f y s = Inl x \<Longrightarrow> P x"
  shows "P x"
  using assms(1)
proof (induction ys arbitrary: st)
  case Nil
  then show ?case by simp
next
  case (Cons y ys)
  then show ?case using assms(2) by (cases "f y st") auto
qed

lemma enqueue_Inl: "enqueue v p st = Inl x \<Longrightarrow> fst x \<noteq> UnreachablePrototype m"
  by (auto simp: enqueue_def split: val.splits typeof_tag.splits if_splits)

lemma defineProperty_Inl: "defineProperty h t k d = Inl err \<Longrightarrow> err \<noteq> UnreachablePrototype m"
  by (auto simp: defineProperty_def split: val.splits option.splits if_splits)

lemma override_one_Inl: "override_one ob nd st = Inl x \<Longrightarrow> fst x \<noteq> UnreachablePrototype m"
  by (cases nd)
    (auto simp: override_one_def override_data_def override_accessor_def Let_def
      split: if_splits desc.splits sum.splits prod.splits dest: defineProperty_Inl)

lemma traverse_one_Inl: "traverse_one path nd st = Inl x \<Longrightarrow> fst x \<noteq> UnreachablePrototype m"
  by (cases nd)
    (auto simp: traverse_one_def Let_def split: desc.splits sum.splits dest: enqueue_Inl)

lemma freezeAndTraverse_Inl:
  assumes "freezeAndTraverse c n st = Inl x" and "naivePrepareObject c = None"
  shows "fst x \<noteq> UnreachablePrototype m"
proof (cases c n st rule: freezeAndTraverse_cases)
  case (hook_throws y)
  then show ?thesis using assms(2) by (simp add: run_hook_def)
next
  case (freeze_throws st1 y)
  then have "for_each (override_one n) (getOwnPropertyDescriptors (heap st1) n) st1 = Inl x"
    using assms(1) by (auto simp: freezeWithOverride_def split: sum.splits)
  then show ?thesis by (rule for_each_Inl) (rule override_one_Inl)
next
  case (traversed st1 st2)
  then have "for_each (traverse_one (path_of st2 n)) (getOwnPropertyDescriptors (heap st2) n)
           (record_prototype (getPrototypeOf (heap st2) n) (path_of st2 n) st2) = Inl x"
    using assms(1) by simp
  then show ?thesis by (rule for_each_Inl) (rule traverse_one_Inl)
qed

lemma dequeue_from_Inl:
  assumes "dequeue_from c i st = Some r" and "naivePrepareObject c = None" and "r = Inl x"
  shows "fst x \<noteq> UnreachablePrototype m"
  using assms(1,3)
proof (induction rule: dequeue_from_induct)
  case (finished i st)
  then show ?case by simp
next
  case (throws i st y)
  then show ?case using freezeAndTraverse_Inl [OF _ assms(2)] by auto
next
  case (step i st st1 r)
  then show ?case by simp
qed

lemma hookless: "naivePrepareObject c = None \<Longrightarrow> hook_passive c \<and> hook_ok c"
  by (simp add: hook_passive_def hook_ok_def)

lemma retry_fails_again:
  assumes e: "enqueue root None (new_call h fr) = Inr st0"
    and d: "dequeue_from c 0 st0 = Some (Inr st1)"
    and ck: "checkPrototypes st1 = Inl x"
    and wf: "wf_heap h" and ok: "val_ok (next_ref h) root" and nh: "naivePrepareObject c = None"
    and fb: "\<forall>r\<in>fr. r < next_ref h"
  shows "\<exists>m. harden c root (heap st1) fr = Some (Inl (UnreachablePrototype m), heap st1, fr)"
proof -
  have hk: "hook_ok c" and hp: "hook_passive c" using hookless [OF nh] by simp_all
  note a = walked [OF e d wf ok hk fb]
  have i0: "inv st0"
    using enqueue_inv [OF new_call_inv [OF wf, of fr], of root None] ok e by (simp add: new_call_def)
  have ty: "\<forall>n\<in>set (toFreeze st1). typed (heap st1) n"
    using dequeue_from_typed [OF d hk i0] by simp
  let ?D = "set (toFreeze st1)"
  let ?s = "new_call (heap st1) fr"
  have st: "settled (heap st1) fr ?D"
    unfolding settled_def
  proof (intro ballI conjI)
    fix n assume n: "n \<in> ?D"
    then have nd: "node_done st1 n" using a(3) by blast
    show "frozen_obj (objs (heap st1) n)" using nd by (simp add: node_done_def)
    show "prop_refs (heap st1) n \<subseteq> ?D \<union> fr"
      using nd a(4) by (auto simp: node_done_def prop_refs_def covered_def)
    show "typed (heap st1) n" using ty n by blast
  qed
  have nx: "next_ref h \<le> next_ref (heap st1)" using a(5) by (simp add: heap_step_def)
  have ok1: "val_ok (next_ref (heap st1)) root" using ok nx by (cases root) simp_all
  have rt: "\<forall>r\<in>val_refs root. (r \<in> ?D \<or> r \<in> fringeSet ?s) \<and>
      (\<forall>t. typeof (objs (heap ?s) r) \<noteq> TOther t)"
  proof
    fix r assume "r \<in> val_refs root"
    then have r: "root = VRef r" by (cases root) simp_all
    then have "covered st1 r" using a(6) by simp
    then have c: "r \<in> ?D \<or> r \<in> fr" using a(4) by (auto simp: covered_def)
    have "r < next_ref h" using ok r by simp
    then have "typeof (objs (heap st1) r) = typeof (objs h r)" using a(5) by (simp add: heap_step_def)
    moreover have "\<forall>t. typeof (objs h r) \<noteq> TOther t"
      using enqueue_typed [of r None "new_call h fr" st0] e r by (simp add: new_call_def)
    ultimately show "(r \<in> ?D \<or> r \<in> fringeSet ?s) \<and> (\<forall>t. typeof (objs (heap ?s) r) \<noteq> TOther t)"
      using c by (simp add: new_call_def)
  qed
  have "\<exists>st'. enqueue root None ?s = Inr st' \<and> heap st' = heap ?s \<and> fringeSet st' = fringeSet ?s \<and>
      set (toFreeze st') \<subseteq> ?D"
    using rt by (intro enqueue_within) (simp_all add: new_call_def)
  then obtain st0' where e2: "enqueue root None ?s = Inr st0'" and h0: "heap st0' = heap st1"
    and f0: "fringeSet st0' = fr" and t0: "set (toFreeze st0') \<subseteq> ?D"
    by (auto simp: new_call_def)
  have i0': "inv st0'"
    using enqueue_inv [OF new_call_inv [OF invD(1) [OF a(1)], of fr], of root None] ok1 e2
    by (simp add: new_call_def)
  obtain r where d2: "dequeue_from c 0 st0' = Some r"
    using dequeue_from_terminates [OF hp i0'] by blast
  have "\<exists>st'. r = Inr st' \<and> heap st' = heap st0' \<and> fringeSet st' = fringeSet st0'"
    using dequeue_from_within [OF d2 nh _ t0] st h0 f0 by simp
  then obtain st2 where r: "r = Inr st2" and h2: "heap st2 = heap st1" by (auto simp: h0)
  have d2': "dequeue c st0' = Some (Inr st2)" using d2 r by (simp add: dequeue_def)
  note eq = harden_after_dequeue [OF e2 d2']
  show ?thesis
  proof (cases "find (offending st2) (prototypes st2)")
    case None
    then have "harden c root (heap st1) fr = Some (Inr root, heap st2, fr \<union> set (toFreeze st2))"
      using eq by simp
    then show ?thesis using retry_not_success [OF e d ck wf ok hk fb] by blast
  next
    case (Some pp)
    then show ?thesis using eq h2 by (cases pp) simp
  qed
qed

lemma harden_InlD:
  assumes "harden c root h fr = Some (Inl (UnreachablePrototype m), h', fr')"
    and "naivePrepareObject c = None"
  obtains st0 st1 x where "enqueue root None (new_call h fr) = Inr st0"
    "dequeue_from c 0 st0 = Some (Inr st1)" "checkPrototypes st1 = Inl x" "h' = heap st1"
proof -
  obtain st where w: "walk c root h fr = Some (Inl (UnreachablePrototype m, st))" and h': "h' = heap st"
    using assms(1) by (auto simp: harden_def split: option.splits sum.splits prod.splits)
  show ?thesis
  proof (cases rule: walk_cases [where root=root and h=h and fr=fr and c=c])
    case (enqueue_throws x)
    then show ?thesis using w enqueue_Inl [of root None "new_call h fr" x m] by auto
  next
    case (diverges st0)
    then show ?thesis using w by simp
  next
    case (dequeue_throws st0 x)
    then show ?thesis using w dequeue_from_Inl [OF dequeue_throws(2) assms(2) refl, of m] by auto
  next
    case (checked st0 st1)
    then have c: "checkPrototypes st1 = Inl (UnreachablePrototype m, st)" using w by simp
    then have "st = st1" using checkPrototypes_state [of st1] by simp
    then show ?thesis using that [OF checked(1,2) c] h' by simp
  qed
qed

section \<open>The claims\<close>

text \<open>
  C3 (as amended). A call of \<open>harden\<close> that throws, from whichever step, leaves the
  \<open>fringeSet\<close> exactly as it found it: nothing of the call's \<open>toFreeze\<close> is merged. When
  a hardener without hook threw in the prototype check (on a well-formed heap, for a root
  that is a primitive or an allocated object, the \<open>fringeSet\<close> holding allocated objects),
  the same call on the heap it left throws in the prototype check again, and leaves that
  heap and the \<open>fringeSet\<close> as they are.
\<close>

theorem harden_failure_keeps_fringe:
  assumes "harden c root h fr = Some (Inl e, h', fr')"
  shows "fr' = fr \<and>
         (wf_heap h \<and> val_ok (next_ref h) root \<and> (\<forall>r\<in>fr. r < next_ref h) \<and>
          naivePrepareObject c = None \<and> (\<exists>m. e = UnreachablePrototype m) \<longrightarrow>
            (\<exists>m'. harden c root h' fr' = Some (Inl (UnreachablePrototype m'), h', fr')))"
proof -
  obtain st where "walk c root h fr = Some (Inl (e, st))" and "fr' = fringeSet st"
    using assms by (auto simp: harden_def split: option.splits sum.splits prod.splits)
  then have f: "fr' = fr" using walk_fringe [of c root h fr "Inl (e, st)"] by simp
  have "\<exists>m'. harden c root h' fr' = Some (Inl (UnreachablePrototype m'), h', fr')"
    if wf: "wf_heap h" and ok: "val_ok (next_ref h) root" and fb: "\<forall>r\<in>fr. r < next_ref h"
      and nh: "naivePrepareObject c = None" and m: "e = UnreachablePrototype m" for m
  proof -
    from assms m nh obtain st0 st1 x where "enqueue root None (new_call h fr) = Inr st0"
      "dequeue_from c 0 st0 = Some (Inr st1)" "checkPrototypes st1 = Inl x" "h' = heap st1"
      using harden_InlD [of c root h fr m h' fr'] by blast
    then show ?thesis using retry_fails_again [OF _ _ _ wf ok nh fb] f by blast
  qed
  then show ?thesis using f by blast
qed

text \<open>
  Witness for C3: in the small realm, with \<open>Object.prototype\<close> and \<open>Function.prototype\<close> in
  the \<open>fringeSet\<close>, hardening object 2 throws for the prototype of object 3, the
  \<open>fringeSet\<close> is still those two objects, and the same call again throws in the
  prototype check.
\<close>

theorem harden_failure_keeps_fringe_witness:
  "outcome (harden no_hook (VRef 2) demo_heap {0, 1}) =
     Some (Inl (UnreachablePrototype
       ''prototype [object Object] of unknown.value is not already in the fringeSet'')) \<and>
   fringe_after (harden no_hook (VRef 2) demo_heap {0, 1}) = {0, 1} \<and>
   (\<exists>m'. harden no_hook (VRef 2) (heap_after (harden no_hook (VRef 2) demo_heap {0, 1})) {0, 1} =
      Some (Inl (UnreachablePrototype m'), heap_after (harden no_hook (VRef 2) demo_heap {0, 1}), {0, 1}))"
proof -
  note w = harden_failure_keeps_fringe [OF outcomeD [OF demo_first_call]]
  have f: "fringe_after (harden no_hook (VRef 2) demo_heap {0, 1}) = {0, 1}" using w by blast
  have v: "val_ok (next_ref demo_heap) (VRef 2)" by (simp add: demo_heap_def)
  have b: "\<forall>r\<in>{0, 1}. r < next_ref demo_heap" by (simp add: demo_heap_def)
  have n: "naivePrepareObject no_hook = None" by (simp add: no_hook_def)
  have "\<exists>m'. harden no_hook (VRef 2) (heap_after (harden no_hook (VRef 2) demo_heap {0, 1}))
        (fringe_after (harden no_hook (VRef 2) demo_heap {0, 1})) =
      Some (Inl (UnreachablePrototype m'), heap_after (harden no_hook (VRef 2) demo_heap {0, 1}),
        fringe_after (harden no_hook (VRef 2) demo_heap {0, 1}))"
    using w wf_demo_heap v b n by blast
  then show ?thesis using f demo_first_call by simp
qed

text \<open>
  Counterexample for C3 as stated (the retry fails identically). The first call has
  already rewritten object 2, so the retry reaches object 3 through the getter of \<open>x\<close>
  and its error carries another path. And with a hook that throws on its first visit of a
  node, the first call on object 6 throws and the same call again returns.
\<close>

theorem retry_reports_other_path:
  "outcome (harden no_hook (VRef 2) demo_heap {0, 1}) =
     Some (Inl (UnreachablePrototype
       ''prototype [object Object] of unknown.value is not already in the fringeSet'')) \<and>
   outcome (harden no_hook (VRef 2) (heap_after (harden no_hook (VRef 2) demo_heap {0, 1}))
       (fringe_after (harden no_hook (VRef 2) demo_heap {0, 1}))) =
     Some (Inl (UnreachablePrototype
       ''prototype [object Object] of unknown.x(get).value is not already in the fringeSet'')) \<and>
   outcome (harden first_visit (VRef 6) demo_heap {0, 1}) = Some (Inl (Thrown ''first visit'')) \<and>
   outcome (harden first_visit (VRef 6) (heap_after (harden first_visit (VRef 6) demo_heap {0, 1}))
       (fringe_after (harden first_visit (VRef 6) demo_heap {0, 1}))) = Some (Inr (VRef 6))"
  by (simp add: run_defs demo_defs first_visit_def first_visit_hook_def)

text \<open>
  C5. \<open>makeHardener\<close> throws its ConfigError when the supplied \<open>fringeSet\<close> lacks \<open>add\<close> or
  lacks \<open>has\<close>, in particular when it lacks both; when the supplied set has both,
  the hardener's fringe is the caller's set, with \<open>initialFringe\<close> merged into it, and no
  private set is created.
\<close>

theorem makeHardener_fringeSet:
  "opt_fringeSet opts = Some fs \<Longrightarrow>
     (\<not> has_add fs \<or> \<not> has_has fs \<longrightarrow>
        makeHardener initialFringe opts =
          Inl (ConfigError ''options.fringeSet must have add() and has() methods'')) \<and>
     (has_add fs \<and> has_has fs \<longrightarrow>
        (\<exists>hd. makeHardener initialFringe opts = Inr hd \<and> hardener_owner hd = CallerSet \<and>
           hardener_fringe hd = members fs \<union> (case initialFringe of None \<Rightarrow> {} | Some xs \<Rightarrow> set xs)))"
  by (auto simp: makeHardener_def fold_insert_set split: option.splits)

text \<open>
  Witness for C5: a supplied set with neither method is refused; a supplied set that holds
  object 3, with \<open>initialFringe = [o7]\<close>, becomes the fringe \<open>{o3, o7}\<close>.
\<close>

theorem makeHardener_fringeSet_witness:
  "makeHardener (Some [7]) \<lparr>opt_fringeSet = Some \<lparr>has_add = False, has_has = False, members = {}\<rparr>,
       opt_naivePrepareObject = None\<rparr> =
     Inl (ConfigError ''options.fringeSet must have add() and has() methods'') \<and>
   (\<exists>hd. makeHardener (Some [7]) \<lparr>opt_fringeSet = Some \<lparr>has_add = True, has_has = True, members = {3}\<rparr>,
       opt_naivePrepareObject = None\<rparr> = Inr hd \<and> hardener_owner hd = CallerSet \<and>
       hardener_fringe hd = {3, 7})"
  using makeHardener_fringeSet [of "\<lparr>opt_fringeSet = Some \<lparr>has_add = False, has_has = False, members = {}\<rparr>,
       opt_naivePrepareObject = None\<rparr>" "\<lparr>has_add = False, has_has = False, members = {}\<rparr>" "Some [7]"]
    makeHardener_fringeSet [of "\<lparr>opt_fringeSet = Some \<lparr>has_add = True, has_has = True, members = {3}\<rparr>,
       opt_naivePrepareObject = None\<rparr>" "\<lparr>has_add = True, has_has = True, members = {3}\<rparr>" "Some [7]"]
  by auto

text \<open>
  C4. Once \<open>enqueue(root)\<close> and \<open>dequeue()\<close> have returned, the call throws the
  UnreachablePrototype error if and only if some prototype recorded in \<open>prototypes\<close> is
  in neither the \<open>fringeSet\<close> nor \<open>toFreeze\<close>. The error is about the first such
  prototype in recording order: its message carries the prototype's text and the path
  recorded for it, and when that text cannot be produced the error is still thrown, with
  the generic message. Otherwise the call commits and returns the root.
\<close>

theorem unreachable_prototype_iff:
  assumes "enqueue root None (new_call h fr) = Inr st0" and "dequeue c st0 = Some (Inr st1)"
  shows "((\<exists>m. outcome (harden c root h fr) = Some (Inl (UnreachablePrototype m))) =
          (\<exists>pp\<in>set (prototypes st1). fst pp \<notin> set (toFreeze st1) \<and> fst pp \<notin> fr)) \<and>
         harden c root h fr =
           (case find (offending st1) (prototypes st1) of
              None \<Rightarrow> Some (Inr root, heap st1, fr \<union> set (toFreeze st1))
            | Some (p, path) \<Rightarrow>
                Some (Inl (UnreachablePrototype
                  (case to_string (objs (heap st1) p) of
                     Some s \<Rightarrow> ''prototype '' @ s @ '' of '' @ path @ '' is not already in the fringeSet''
                   | None \<Rightarrow> ''a prototype of something is not already in the fringeset (and .toString failed)'')),
                  heap st1, fr))"
proof -
  have f1: "fringeSet st1 = fr"
    using evolves_grows [OF enqueue_evolves [of "new_call h fr" root None]] assms(1)
      dequeue_from_grows [of c 0 st0 "Inr st1"] assms(2)
    by (simp add: dequeue_def grows_def new_call_def)
  note eq = harden_after_dequeue [OF assms]
  have second: "harden c root h fr =
           (case find (offending st1) (prototypes st1) of
              None \<Rightarrow> Some (Inr root, heap st1, fr \<union> set (toFreeze st1))
            | Some (p, path) \<Rightarrow>
                Some (Inl (UnreachablePrototype
                  (case to_string (objs (heap st1) p) of
                     Some s \<Rightarrow> ''prototype '' @ s @ '' of '' @ path @ '' is not already in the fringeSet''
                   | None \<Rightarrow> ''a prototype of something is not already in the fringeset (and .toString failed)'')),
                  heap st1, fr))"
    unfolding eq by (simp add: unreachable_message_def split: option.splits)
  have first: "(\<exists>m. outcome (harden c root h fr) = Some (Inl (UnreachablePrototype m))) =
          (\<exists>pp\<in>set (prototypes st1). fst pp \<notin> set (toFreeze st1) \<and> fst pp \<notin> fr)"
  proof (cases "find (offending st1) (prototypes st1)")
    case None
    then have "\<not> (\<exists>pp\<in>set (prototypes st1). fst pp \<notin> set (toFreeze st1) \<and> fst pp \<notin> fr)"
      using find_offending_None [of st1 "prototypes st1"] f1 by simp
    then show ?thesis using None by (simp add: eq outcome_def)
  next
    case (Some pp)
    then have "pp \<in> set (prototypes st1) \<and> offending st1 pp"
      by (auto simp: find_Some_iff)
    then have "\<exists>pp\<in>set (prototypes st1). fst pp \<notin> set (toFreeze st1) \<and> fst pp \<notin> fr"
      using f1 by (auto simp: offending_def)
    then show ?thesis using Some by (cases pp) (simp add: eq outcome_def)
  qed
  show ?thesis using first second by blast
qed

text \<open>
  Witness for C4: in the small realm the call on object 2 reaches the check, where the
  prototype of object 3 is in neither set.
\<close>

theorem unreachable_prototype_iff_witness:
  "(\<exists>m. outcome (harden no_hook (VRef 2) demo_heap {0, 1}) = Some (Inl (UnreachablePrototype m))) \<and>
   (\<exists>pp\<in>set (prototypes demo_walked). fst pp \<notin> set (toFreeze demo_walked) \<and> fst pp \<notin> {0, 1}) \<and>
   harden no_hook (VRef 2) demo_heap {0, 1} =
     Some (Inl (UnreachablePrototype
        ''prototype [object Object] of unknown.value is not already in the fringeSet''),
       heap demo_walked, {0, 1})"
proof -
  note w = unreachable_prototype_iff [OF demo_enqueue demo_dequeue]
  have m: "\<exists>m. outcome (harden no_hook (VRef 2) demo_heap {0, 1}) = Some (Inl (UnreachablePrototype m))"
    using demo_first_call by blast
  have h: "harden no_hook (VRef 2) demo_heap {0, 1} =
     Some (Inl (UnreachablePrototype
        ''prototype [object Object] of unknown.value is not already in the fringeSet''),
       heap demo_walked, {0, 1})"
    using w m demo_first_call by (auto simp: outcome_def split: option.splits prod.splits)
  show ?thesis using w m h by blast
qed

text \<open>
  C6. After a call \<open>harden(x)\<close> that returned, it returned \<open>x\<close>, and a second
  \<open>harden(x)\<close> returns \<open>x\<close> again: its walk ends in the state it started from, with
  \<open>toFreeze\<close> empty, and the heap and the \<open>fringeSet\<close> are what the first call left. The
  hook is the caller's code and is assumed to respect the host's invariants; \<open>x\<close> is a
  primitive or an allocated object.
\<close>

theorem harden_idempotent:
  assumes "harden c root h fr = Some (Inr r, h', fr')" and "hook_ok c" and "val_ok (next_ref h) root"
  shows "r = root \<and> walk c root h' fr' = Some (Inr (new_call h' fr')) \<and>
         harden c root h' fr' = Some (Inr root, h', fr')"
proof -
  obtain st where w: "walk c root h fr = Some (Inr st)" and r: "r = root"
    and h': "h' = heap st" and fr': "fr' = fringeSet st \<union> set (toFreeze st)"
    using assms(1)
    by (auto simp: harden_def commit_def split: option.splits sum.splits prod.splits)
  from w obtain st0 st1 where e: "enqueue root None (new_call h fr) = Inr st0"
    and d: "dequeue_from c 0 st0 = Some (Inr st1)" and c: "checkPrototypes st1 = Inr st"
    by (cases rule: walk_cases [where root=root and h=h and fr=fr and c=c]) auto
  have st: "st = st1" using checkPrototypes_state [of st1] c by simp
  have ev: "evolves (new_call h fr) st1"
    using evolves_trans [OF enqueue_evolves [of "new_call h fr" root None]] e
      dequeue_from_evolves [OF d assms(2)] by simp
  have hs: "heap_step h h'" using ev st h' by (simp add: evolves_def new_call_def)
  have f: "fringeSet st = fr" using ev st by (simp add: evolves_def grows_def new_call_def)
  have g: "grows st0 st1" using dequeue_from_grows [OF d] by simp
  have again: "enqueue root None (new_call h' fr') = Inr (new_call h' fr')"
  proof (cases root)
    case (VRef x)
    then have x: "x < next_ref h" using assms(3) by simp
    have ty: "typeof (objs h' x) = typeof (objs h x)" using hs x by (simp add: heap_step_def)
    have ok: "\<forall>t. typeof (objs h x) \<noteq> TOther t"
      using e VRef by (auto simp: enqueue_def new_call_def split: typeof_tag.splits)
    have "x \<in> fr \<or> x \<in> set (toFreeze st0)"
      using e VRef by (auto simp: enqueue_def new_call_def split: typeof_tag.splits if_splits)
    moreover have "set (toFreeze st0) \<subseteq> set (toFreeze st1)"
      using g by (auto simp: grows_def dest: set_mono_prefix)
    ultimately have "x \<in> fr'" using fr' f st by auto
    then show ?thesis using VRef ty ok
      by (auto simp: enqueue_def new_call_def split: typeof_tag.splits)
  qed (simp_all add: enqueue_def)
  have w2: "walk c root h' fr' = Some (Inr (new_call h' fr'))"
    using again
    by (simp add: walk_def dequeue_def dequeue_from_empty new_call_def checkPrototypes_def)
  have "harden c root h' fr' = Some (Inr root, h', fr')"
    by (simp add: harden_def w2 commit_def new_call_def)
  then show ?thesis using r w2 by simp
qed

text \<open>
  Witness for C6: with object 4 in the \<open>fringeSet\<close> too, hardening object 2 succeeds, and
  hardening it again changes nothing.
\<close>

theorem harden_idempotent_witness:
  "outcome (harden no_hook (VRef 2) demo_heap {0, 1, 4}) = Some (Inr (VRef 2)) \<and>
   harden no_hook (VRef 2) (heap_after (harden no_hook (VRef 2) demo_heap {0, 1, 4}))
       (fringe_after (harden no_hook (VRef 2) demo_heap {0, 1, 4})) =
     Some (Inr (VRef 2), heap_after (harden no_hook (VRef 2) demo_heap {0, 1, 4}),
       fringe_after (harden no_hook (VRef 2) demo_heap {0, 1, 4}))"
proof -
  have v: "val_ok (next_ref demo_heap) (VRef 2)" by (simp add: demo_heap_def)
  show ?thesis
    using harden_idempotent [OF outcomeD [OF demo_second_call] hook_ok_no_hook v] demo_second_call
    by simp
qed

text \<open>
  C8. \<open>freezeAndTraverse\<close> runs the hook first: when the hook throws, nothing else
  happens. When \<open>freezeAndTraverse\<close> returns, the hook has returned, \<open>freezeWithOverride\<close>
  has then returned on the heap the hook left, and in the heap that \<open>freezeWithOverride\<close>
  left the node is frozen (no own property is configurable or writable, the node is not
  extensible) and each of its configurable data properties has become the accessor pair
  made for it (for an allocated node with distinct keys); the prototype link and the
  descriptors used for the traversal are read from that heap, which the traversal does
  not change.
\<close>

theorem hardened_before_links_read:
  "(\<forall>x. run_hook c ob st = Inl x \<longrightarrow> freezeAndTraverse c ob st = Inl x) \<and>
   (\<forall>st'. freezeAndTraverse c ob st = Inr st' \<longrightarrow>
      (\<exists>st1 st2.
         run_hook c ob st = Inr st1 \<and>
         freezeWithOverride ob st1 = Inr st2 \<and>
         frozen_obj (objs (heap st2) ob) \<and>
         (distinct (map fst (props (objs (heap st1) ob))) \<and> ob < next_ref (heap st1) \<longrightarrow>
            (\<forall>k v w e. (k, DataDesc v w e True) \<in> set (props (objs (heap st1) ob)) \<longrightarrow>
               override_pair (heap st2) ob k v)) \<and>
         for_each (traverse_one (path_of st2 ob)) (getOwnPropertyDescriptors (heap st2) ob)
           (record_prototype (getPrototypeOf (heap st2) ob) (path_of st2 ob) st2) = Inr st' \<and>
         heap st' = heap st2))"
proof -
  have a: "\<forall>x. run_hook c ob st = Inl x \<longrightarrow> freezeAndTraverse c ob st = Inl x"
    by (simp add: freezeAndTraverse_def)
  have b: "\<exists>st1 st2.
         run_hook c ob st = Inr st1 \<and>
         freezeWithOverride ob st1 = Inr st2 \<and>
         frozen_obj (objs (heap st2) ob) \<and>
         (distinct (map fst (props (objs (heap st1) ob))) \<and> ob < next_ref (heap st1) \<longrightarrow>
            (\<forall>k v w e. (k, DataDesc v w e True) \<in> set (props (objs (heap st1) ob)) \<longrightarrow>
               override_pair (heap st2) ob k v)) \<and>
         for_each (traverse_one (path_of st2 ob)) (getOwnPropertyDescriptors (heap st2) ob)
           (record_prototype (getPrototypeOf (heap st2) ob) (path_of st2 ob) st2) = Inr st' \<and>
         heap st' = heap st2"
    if r: "freezeAndTraverse c ob st = Inr st'" for st'
  proof -
    obtain st1 st2 where 1: "run_hook c ob st = Inr st1"
      and 2: "freezeWithOverride ob st1 = Inr st2"
      and 3: "frozen_obj (objs (heap st2) ob)"
      and 4: "for_each (traverse_one (path_of st2 ob)) (getOwnPropertyDescriptors (heap st2) ob)
           (record_prototype (getPrototypeOf (heap st2) ob) (path_of st2 ob) st2) = Inr st'"
      and 5: "heap st' = heap st2"
      using freezeAndTraverse_InrD [OF r] by blast
    have 6: "override_pair (heap st2) ob k v"
      if "distinct (map fst (props (objs (heap st1) ob)))" "ob < next_ref (heap st1)"
        "(k, DataDesc v w e True) \<in> set (props (objs (heap st1) ob))" for k v w e
      using freezeWithOverride_pair [OF 2 that] .
    show ?thesis using 1 2 3 4 5 6 by blast
  qed
  show ?thesis using a b by blast
qed

text \<open>
  Witness for C8: with a hook that adds a property \<open>seen\<close> to the node, object 6 ends
  frozen with \<open>seen\<close> rewritten into an accessor pair: the hook ran before the hardening,
  and the traversal found the null prototype and the two accessor functions.
\<close>

theorem hardened_before_links_read_witness:
  "frozen_obj (objs (heap demo_tagged) 6) \<and>
   props (objs (heap demo_tagged) 6) = [(KStr ''seen'', AccessorDesc (VRef 9) (VRef 10) True False)] \<and>
   toFreeze demo_tagged = [6, 9, 10] \<and> prototypes demo_tagged = []"
proof -
  have e: "freezeAndTraverse tagging 6 (projr (enqueue (VRef 6) None (new_call demo_heap {}))) =
      Inr demo_tagged"
    unfolding demo_tagged_def
    by (rule Inr_projr) (simp add: run_defs demo_defs tagging_def tagging_hook_def)
  obtain st2 :: state where "frozen_obj (objs (heap st2) 6)" and "heap demo_tagged = heap st2"
    using hardened_before_links_read [of tagging 6
        "projr (enqueue (VRef 6) None (new_call demo_heap {}))", THEN conjunct2, THEN spec, THEN mp, OF e]
    by blast
  then have f: "frozen_obj (objs (heap demo_tagged) 6)" by simp
  have r: "props (objs (heap demo_tagged) 6) = [(KStr ''seen'', AccessorDesc (VRef 9) (VRef 10) True False)] \<and>
   toFreeze demo_tagged = [6, 9, 10] \<and> prototypes demo_tagged = []"
    by (simp add: demo_tagged_def run_defs demo_defs tagging_def tagging_hook_def)
  show ?thesis using f r by simp
qed



text \<open>
  C2 (as amended). Let \<open>freezeWithOverride\<close> have returned on an allocated node with a
  configurable data property \<open>p\<close> holding \<open>v\<close>, and let \<open>h\<close> be the heap then or any
  later heap. In \<open>h\<close> the assignment \<open>node.p = x\<close> throws and changes nothing (the
  ReadOnlyViolation error, when \<open>p\<close> is a string key and the node has a text);
  \<open>node.p\<close> reads \<open>v\<close>; and for every extensible object \<open>c\<close> that inherits \<open>p\<close> from the
  node, \<open>c.p = x\<close> returns, \<open>c\<close> then has the own writable, enumerable, configurable data
  property \<open>p\<close> holding \<open>x\<close>, the node is unchanged, \<open>node.p\<close> still reads \<open>v\<close> and
  \<open>c.p\<close> reads \<open>x\<close>.
\<close>

theorem override_preserving_write:
  assumes "freezeWithOverride node st = Inr st'"
    and "distinct (map fst (props (objs (heap st) node)))"
    and "node < next_ref (heap st)"
    and "(p, DataDesc v w e True) \<in> set (props (objs (heap st) node))"
    and "heap_step (heap st') h"
  shows "assign h node p x = Some (Inl (read_only_error h p node)) \<and>
         (\<forall>s t. p = KStr s \<and> to_string (objs h node) = Some t \<longrightarrow>
            (\<exists>m. read_only_error h p node = ReadOnlyViolation m)) \<and>
         read h node p = Some v \<and>
         (\<forall>c. inherits h p c node \<and> extensible (objs h c) \<longrightarrow>
            (\<exists>h2. assign h c p x = Some (Inr h2) \<and>
               map_of (props (objs h2 c)) p = Some (DataDesc x True True True) \<and>
               objs h2 node = objs h node \<and>
               read h2 node p = Some v \<and> read h2 c p = Some x))"
proof -
  have "node < next_ref (heap st')" using freezeWithOverride_next [OF assms(1)] assms(3) by simp
  then have pair: "override_pair h node p v"
    using override_pair_heap_step [OF freezeWithOverride_pair [OF assms(1,2,3,4)]
        freezeWithOverride_frozen [OF assms(1)] _ assms(5)] by simp
  have a: "assign h node p x = Some (Inl (read_only_error h p node))"
    using assign_direct [OF pair] .
  have b: "\<forall>s t. p = KStr s \<and> to_string (objs h node) = Some t \<longrightarrow>
            (\<exists>m. read_only_error h p node = ReadOnlyViolation m)"
    by (auto simp: read_only_error_def)
  have c: "read h node p = Some v" using read_direct [OF pair] .
  have d: "\<exists>h2. assign h c p x = Some (Inr h2) \<and>
               map_of (props (objs h2 c)) p = Some (DataDesc x True True True) \<and>
               objs h2 node = objs h node \<and>
               read h2 node p = Some v \<and> read h2 c p = Some x"
    if inh: "inherits h p c node" and ext: "extensible (objs h c)" for c
  proof -
    let ?h2 = "set_obj h c ((objs h c)\<lparr>props := props (objs h c) @ [(p, DataDesc x True True True)]\<rparr>)"
    have own: "map_of (props (objs h c)) p = None" using inherits_own_None [OF inh] .
    have "map_of (props (objs h node)) p \<noteq> None" using pair by (auto elim: override_pairE)
    then have ne: "c \<noteq> node" using own by auto
    have 1: "assign h c p x = Some (Inr ?h2)" using assign_inherited [OF pair inh ext] .
    have 2: "map_of (props (objs ?h2 c)) p = Some (DataDesc x True True True)"
      using own by (simp add: set_obj_def map_add_def)
    have 3: "objs ?h2 node = objs h node" using ne by (simp add: set_obj_def)
    have 4: "read ?h2 node p = Some v"
      using read_direct [OF override_pair_other_props [OF pair ne]] .
    have 5: "read ?h2 c p = Some x"
      using 2 by (simp add: read_def ordinary_get.simps [of ?h2 c p])
    show ?thesis using 1 2 3 4 5 by blast
  qed
  show ?thesis using a b c d by blast
qed

text \<open>
  Witness for C2: after the hardening of object 2, \<open>o2.x = 5\<close> throws, \<open>o2.x\<close> reads
  object 3, and \<open>o8.x = 5\<close> on the extensible heir 8 creates its own property.
\<close>

theorem override_preserving_write_witness:
  "assign (heap demo_frozen) 2 (KStr ''x'') (VNum 5) =
     Some (Inl (ReadOnlyViolation (''Cannot assign to read only property '' @ [CHR 0x27] @ ''x'' @
        [CHR 0x27] @ '' of object '' @ [CHR 0x27] @ ''[object Object]'' @ [CHR 0x27]))) \<and>
   read (heap demo_frozen) 2 (KStr ''x'') = Some (VRef 3) \<and>
   (\<exists>h2. assign (heap demo_frozen) 8 (KStr ''x'') (VNum 5) = Some (Inr h2) \<and>
      map_of (props (objs h2 8)) (KStr ''x'') = Some (DataDesc (VNum 5) True True True) \<and>
      objs h2 2 = objs (heap demo_frozen) 2 \<and>
      read h2 2 (KStr ''x'') = Some (VRef 3) \<and> read h2 8 (KStr ''x'') = Some (VNum 5))"
proof -
  have d: "distinct (map fst (props (objs (heap demo_queued) 2)))"
    by (simp add: demo_queued_def run_defs demo_defs)
  have n: "2 < next_ref (heap demo_queued)"
    by (simp add: demo_queued_def run_defs demo_defs)
  have m: "(KStr ''x'', DataDesc (VRef 3) True True True) \<in> set (props (objs (heap demo_queued) 2))"
    by (simp add: demo_queued_def run_defs demo_defs)
  note w = override_preserving_write [OF demo_freeze d n m heap_step_refl, of "VNum 5"]
  have i: "inherits (heap demo_frozen) (KStr ''x'') 8 2"
    by (rule inherits.parent) (simp_all add: demo_frozen_heap plain_object_def)
  have e: "extensible (objs (heap demo_frozen) 8)"
    by (simp add: demo_frozen_heap plain_object_def)
  have r: "read_only_error (heap demo_frozen) (KStr ''x'') 2 =
      ReadOnlyViolation (''Cannot assign to read only property '' @ [CHR 0x27] @ ''x'' @
        [CHR 0x27] @ '' of object '' @ [CHR 0x27] @ ''[object Object]'' @ [CHR 0x27])"
    by (simp add: read_only_error_def demo_frozen_heap plain_object_def)
  show ?thesis using w i e r by auto
qed

text \<open>
  Counterexample for C2 as stated (the write on any distinct inheriting receiver
  succeeds): object 7 inherits \<open>x\<close> from the hardened object 2 and is not extensible, and
  \<open>o7.x = 5\<close> throws the TypeError of \<open>defineProperty\<close>. And the direct write does
  not always throw the read-only error: object 5 has no string conversion, and after its
  hardening \<open>o5.x = 2\<close> throws the TypeError of the template literal that was to build
  the message.
\<close>

theorem sealed_heir_cannot_shadow:
  "freezeWithOverride 2 demo_queued = Inr demo_frozen \<and>
   map_of (props (objs (heap demo_queued) 2)) (KStr ''x'') = Some (DataDesc (VRef 3) True True True) \<and>
   proto (objs (heap demo_frozen) 7) = Some 2 \<and>
   map_of (props (objs (heap demo_frozen) 7)) (KStr ''x'') = None \<and>
   assign (heap demo_frozen) 7 (KStr ''x'') (VNum 5) =
     Some (Inl (HostTypeError ''Cannot define property, object is not extensible'')) \<and>
   \<not> isl (freezeWithOverride 5 (new_call demo_heap {})) \<and>
   to_string (objs demo_heap 5) = None \<and>
   assign (heap (projr (freezeWithOverride 5 (new_call demo_heap {})))) 5 (KStr ''x'') (VNum 2) =
     Some (Inl (HostTypeError ''Cannot convert object to primitive value''))"
proof -
  have m: "map_of (props (objs (heap demo_queued) 2)) (KStr ''x'') = Some (DataDesc (VRef 3) True True True)"
    by (simp add: demo_queued_def run_defs demo_defs)
  have a: "assign (heap demo_frozen) 7 (KStr ''x'') (VNum 5) =
     Some (Inl (HostTypeError ''Cannot define property, object is not extensible''))"
    by (simp add: write_defs demo_frozen_heap plain_object_def setter_obj_def defineProperty_def)
  have b: "\<not> isl (freezeWithOverride 5 (new_call demo_heap {})) \<and>
   to_string (objs demo_heap 5) = None \<and>
   assign (heap (projr (freezeWithOverride 5 (new_call demo_heap {})))) 5 (KStr ''x'') (VNum 2) =
     Some (Inl (HostTypeError ''Cannot convert object to primitive value''))"
    by (simp add: run_defs write_defs demo_defs read_only_error_def override_set_def)
  have c: "proto (objs (heap demo_frozen) 7) = Some 2 \<and>
      map_of (props (objs (heap demo_frozen) 7)) (KStr ''x'') = None"
    by (simp add: demo_frozen_heap plain_object_def)
  show ?thesis using demo_freeze m a b c by blast
qed






text \<open>
  C9 (as amended). When \<open>freezeAndTraverse\<close> returns on a node whose prototype link is
  null, \<open>prototypes\<close> is what it was before. So when \<open>enqueue(root)\<close> and \<open>dequeue()\<close>
  have returned and every node of \<open>toFreeze\<close> has a null prototype, \<open>prototypes\<close> is
  empty and the call commits and returns the root, whatever the \<open>fringeSet\<close> holds.
\<close>

theorem null_prototype_records_nothing:
  assumes "enqueue root None (new_call h fr) = Inr st0" and "dequeue c st0 = Some (Inr st1)"
    and "wf_heap h" and "val_ok (next_ref h) root" and "hook_ok c"
  shows "(\<forall>c' ob st st'. freezeAndTraverse c' ob st = Inr st' \<and> proto (objs (heap st') ob) = None \<longrightarrow>
            prototypes st' = prototypes st) \<and>
         ((\<forall>n\<in>set (toFreeze st1). proto (objs (heap st1) n) = None) \<longrightarrow>
            prototypes st1 = [] \<and>
            harden c root h fr = Some (Inr root, heap st1, fr \<union> set (toFreeze st1)))"
proof -
  have i0: "inv st0"
    using enqueue_inv [OF new_call_inv [OF assms(3), of fr], of root None] assms(1,4)
    by (simp add: new_call_def)
  have p0: "prototypes st0 = []"
    using enqueue_prototypes [of root None "new_call h fr"] assms(1) by (simp add: new_call_def)
  have b: "prototypes st1 = [] \<and> harden c root h fr = Some (Inr root, heap st1, fr \<union> set (toFreeze st1))"
    if "\<forall>n\<in>set (toFreeze st1). proto (objs (heap st1) n) = None"
  proof -
    have "prototypes st1 = []"
      using dequeue_from_no_prototypes [OF _ assms(5) i0 p0 refl that] assms(2)
      by (simp add: dequeue_def)
    then show ?thesis using harden_after_dequeue [OF assms(1,2)] by simp
  qed
  show ?thesis using null_prototype_step b by blast
qed

text \<open>
  Witness for C9: object 6 has no prototype and no property; with an empty \<open>fringeSet\<close>
  the call returns and the \<open>fringeSet\<close> is that object alone.
\<close>

theorem null_prototype_records_nothing_witness:
  "prototypes demo_bare_walked = [] \<and>
   harden no_hook (VRef 6) demo_heap {} = Some (Inr (VRef 6), heap demo_bare_walked, {6})"
proof -
  have v: "val_ok (next_ref demo_heap) (VRef 6)" by (simp add: demo_heap_def)
  have n: "\<forall>n\<in>set (toFreeze demo_bare_walked). proto (objs (heap demo_bare_walked) n) = None"
    by (simp add: demo_bare_nodes)
  show ?thesis
    using null_prototype_records_nothing [OF demo_bare_enqueue demo_bare_dequeue wf_demo_heap v
        hook_ok_no_hook, THEN conjunct2, THEN mp, OF n]
    by (simp add: demo_bare_nodes)
qed

text \<open>
  Counterexample for C9 as stated: object 5 has no prototype, but its configurable data
  property \<open>x\<close> makes \<open>freezeWithOverride\<close> create a getter and a setter, whose prototype
  is \<open>Function.prototype\<close>; with an empty \<open>fringeSet\<close> the call throws.
\<close>

theorem null_prototype_root_fails:
  "proto (objs demo_heap 5) = None \<and>
   outcome (harden no_hook (VRef 5) demo_heap {}) =
     Some (Inl (UnreachablePrototype
       ''prototype function () { [native code] } of unknown is not already in the fringeSet''))"
  by (simp add: run_defs demo_defs)

end
